theory Spec2Isabelle
  imports Main "HOL-Library.AList"
begin

section \<open>JavaScript values\<close>

text \<open>
  The values that flow through the serialization engine of
  \<^verbatim>\<open>savegame/serialization.js\<close>. Numbers are modelled by the integers plus \<open>NaN\<close>
  (the engine only ever tests a number for truthiness). Nested arrays and objects are
  immutable trees; the objects the engine mutates or compares by identity live in the
  store of section \<open>Program state\<close>. An object is the list of its own enumerable
  properties in \<^verbatim>\<open>for ... in\<close> order: the array indices in ascending order, then the
  other names in the order of their creation. A value of this type is never a function.
\<close>

datatype jsval =
    JUndefined
  | JNull
  | JBool bool
  | JNum int
  | JNaN
  | JStr string
  | JArr "jsval list"
  | JObj "(string \<times> jsval) list"

text \<open>\<^verbatim>\<open>if (v)\<close>, \<^verbatim>\<open>!v\<close>: the falsy values are undefined, null, false, 0, NaN and the
  empty string.\<close>

fun truthy :: "jsval \<Rightarrow> bool" where
  "truthy JUndefined = False"
| "truthy JNull = False"
| "truthy (JBool b) = b"
| "truthy (JNum n) = (n \<noteq> 0)"
| "truthy JNaN = False"
| "truthy (JStr s) = (s \<noteq> [])"
| "truthy (JArr xs) = True"
| "truthy (JObj kvs) = True"

datatype fault = TypeError | AssertionError string

text \<open>A call either returns or throws; the state reached is kept in both cases, since an
  exception undoes nothing.\<close>

datatype 'a outcome = Returned 'a | Thrown fault

text \<open>A property name is an array index when it is the canonical decimal form of a
  number: digits only, no leading zero.\<close>

definition isDigit :: "char \<Rightarrow> bool" where
  "isDigit c = (c \<in> set ''0123456789'')"

definition arrayIndex :: "string \<Rightarrow> nat option" where
  "arrayIndex key =
     (if key = [] \<or> \<not> list_all isDigit key \<or> (1 < length key \<and> hd key = CHR ''0'')
      then None
      else Some (foldl (\<lambda>n c. 10 * n + (of_char c - 48)) 0 key))"

text \<open>\<^verbatim>\<open>data.hasOwnProperty(key)\<close>: reading the method off \<^verbatim>\<open>null\<close> or
  \<^verbatim>\<open>undefined\<close> throws a TypeError; booleans and numbers have no own properties;
  strings and arrays own their indices and \<^verbatim>\<open>length\<close>. An object inherits the
  method from \<^verbatim>\<open>Object.prototype\<close> unless it owns a property of that name; then
  \<^verbatim>\<open>data.hasOwnProperty\<close> is that property's value, which is not a function, and the
  call throws a TypeError.\<close>

fun hasOwnProperty :: "jsval \<Rightarrow> string \<Rightarrow> bool outcome" where
  "hasOwnProperty JUndefined key = Thrown TypeError"
| "hasOwnProperty JNull key = Thrown TypeError"
| "hasOwnProperty (JBool b) key = Returned False"
| "hasOwnProperty (JNum n) key = Returned False"
| "hasOwnProperty JNaN key = Returned False"
| "hasOwnProperty (JStr str) key =
     Returned (key = ''length'' \<or>
       (case arrayIndex key of Some i \<Rightarrow> i < length str | None \<Rightarrow> False))"
| "hasOwnProperty (JArr xs) key =
     Returned (key = ''length'' \<or>
       (case arrayIndex key of Some i \<Rightarrow> i < length xs | None \<Rightarrow> False))"
| "hasOwnProperty (JObj kvs) key =
     (if ''hasOwnProperty'' \<in> set (map fst kvs) then Thrown TypeError
      else Returned (key \<in> set (map fst kvs)))"

text \<open>\<^verbatim>\<open>data[key]\<close> for an own property; a name that is not an own property reads as
  \<^verbatim>\<open>undefined\<close> (inherited members are not modelled; the engine reads \<^verbatim>\<open>data[key]\<close>
  only after \<^verbatim>\<open>hasOwnProperty\<close> has answered true).\<close>

fun getProperty :: "jsval \<Rightarrow> string \<Rightarrow> jsval" where
  "getProperty (JStr str) key =
     (if key = ''length'' then JNum (int (length str))
      else case arrayIndex key of
             Some i \<Rightarrow> if i < length str then JStr [str ! i] else JUndefined
           | None \<Rightarrow> JUndefined)"
| "getProperty (JArr xs) key =
     (if key = ''length'' then JNum (int (length xs))
      else case arrayIndex key of
             Some i \<Rightarrow> if i < length xs then xs ! i else JUndefined
           | None \<Rightarrow> JUndefined)"
| "getProperty (JObj kvs) key =
     (case map_of kvs key of Some v \<Rightarrow> v | None \<Rightarrow> JUndefined)"
| "getProperty v key = JUndefined"

section \<open>Assigning properties\<close>

text \<open>A property name is an array index when it is the canonical form of a number
  below \<open>2\<^sup>3\<^sup>2 - 1\<close>.\<close>

definition indexOf :: "string \<Rightarrow> nat option" where
  "indexOf key =
     (case arrayIndex key of Some i \<Rightarrow> if i < 4294967295 then Some i else None | None \<Rightarrow> None)"

text \<open>The place of a new array index among the properties: after the smaller
  indices, before everything else.\<close>

fun insertIndexed :: "nat \<Rightarrow> string \<Rightarrow> 'v \<Rightarrow> (string \<times> 'v) list \<Rightarrow> (string \<times> 'v) list" where
  "insertIndexed i key v [] = [(key, v)]"
| "insertIndexed i key v (p # ps) =
     (case indexOf (fst p) of
        Some j \<Rightarrow> if j < i then p # insertIndexed i key v ps else (key, v) # p # ps
      | None \<Rightarrow> (key, v) # p # ps)"

text \<open>\<^verbatim>\<open>ob[key] = v\<close> on the properties of an object: an existing property keeps its
  place; a new array index goes among the indices; any other new name goes last.\<close>

definition assignProperty :: "string \<Rightarrow> 'v \<Rightarrow> (string \<times> 'v) list \<Rightarrow> (string \<times> 'v) list" where
  "assignProperty key v al =
     (if key \<in> fst ` set al then AList.update key v al
      else case indexOf key of
             Some i \<Rightarrow> insertIndexed i key v al
           | None \<Rightarrow> al @ [(key, v)])"

text \<open>\<^verbatim>\<open>Object.assign(target, source)\<close> on the properties: every property of
  \<^verbatim>\<open>source\<close>, in order, is assigned to \<^verbatim>\<open>target\<close>.\<close>

definition objectAssign :: "(string \<times> 'v) list \<Rightarrow> (string \<times> 'v) list \<Rightarrow> (string \<times> 'v) list" where
  "objectAssign target source = foldl (\<lambda>acc kv. assignProperty (fst kv) (snd kv) acc) target source"

section \<open>Live objects, descriptors and schemas\<close>

text \<open>A live object: \<^verbatim>\<open>obj.constructor.name\<close> and the own properties. A live object
  and a schema are taken to inherit \<^verbatim>\<open>hasOwnProperty\<close> (no field of a persistable
  class has that name), so the test \<^verbatim>\<open>obj.hasOwnProperty(key)\<close> is membership.\<close>

record jsobject =
  className :: string
  props :: "(string \<times> jsval) list"

definition objHasOwnProperty :: "jsobject \<Rightarrow> string \<Rightarrow> bool" where
  "objHasOwnProperty ob key = (key \<in> set (map fst (props ob)))"

definition objGet :: "jsobject \<Rightarrow> string \<Rightarrow> jsval" where
  "objGet ob key = (case map_of (props ob) key of Some v \<Rightarrow> v | None \<Rightarrow> JUndefined)"

text \<open>\<^verbatim>\<open>ob[key] = v\<close>\<close>

definition objSet :: "jsobject \<Rightarrow> string \<Rightarrow> jsval \<Rightarrow> jsobject" where
  "objSet ob key v = ob\<lparr>props := assignProperty key v (props ob)\<rparr>"

text \<open>
  The data type descriptors (\<^verbatim>\<open>BaseDataType\<close> and its subclasses) are imported from
  \<^verbatim>\<open>./serialization_data_types\<close>, which is not among the sources, so a descriptor is a
  parameter of the engine: the four methods the engine calls. \<^verbatim>\<open>serialize\<close> may throw
  (\<^verbatim>\<open>serializeSchema\<close> catches and rethrows). \<^verbatim>\<open>deserializeWithVerify(value, targetObject,
  targetKey, root)\<close> receives the live object and yields it, possibly assigned into,
  together with its error status; \<^verbatim>\<open>verifySerializedValue\<close> only looks at the raw
  value. Both report a data error by returning it: the status is a string or nothing
  (\<^verbatim>\<open>@returns {string|void}\<close>), and the engine takes it for an error when it is
  truthy, that is, a string that is not empty.
\<close>

record descriptor =
  allowNull :: bool
  serialize :: "jsval \<Rightarrow> jsval outcome"
  deserializeWithVerify ::
    "jsval \<Rightarrow> jsobject \<Rightarrow> string \<Rightarrow> jsval \<Rightarrow> jsobject \<times> string option"
  verifySerializedValue :: "jsval \<Rightarrow> string option"

text \<open>\<^verbatim>\<open>if (errorStatus)\<close>\<close>

definition isError :: "string option \<Rightarrow> bool" where
  "isError errorStatus = (case errorStatus of Some e \<Rightarrow> e \<noteq> [] | None \<Rightarrow> False)"

text \<open>\<^verbatim>\<open>@typedef {Object.<string, BaseDataType>} Schema\<close>\<close>

type_synonym schema = "(string \<times> descriptor) list"

section \<open>Program state\<close>

type_synonym ref = nat

text \<open>
  The store holds the schema objects and the plain objects by address (an address is an
  index; allocation appends), and the own properties of the two module-level caches:
  \<^verbatim>\<open>globalSchemaCache\<close> maps a class identifier to the address of a schema object,
  \<^verbatim>\<open>classnamesCache\<close> maps it to a class, which is known by its identity only.
  JavaScript has no dangling references: every address a program holds is below the
  length of its store.
\<close>

record pstate =
  schemas :: "schema list"
  objects :: "jsobject list"
  globalSchemaCache :: "(string \<times> ref) list"
  classnamesCache :: "(string \<times> nat) list"

datatype called = CallAllowNull | CallSerialize | CallDeserializeWithVerify
  | CallVerifySerializedValue

datatype event = DescriptorCall string called | GetSchemaCall string

text \<open>
  Around the store: the build flag \<^verbatim>\<open>G_IS_DEV\<close>, the diagnostics written through
  \<^verbatim>\<open>logger.error\<close> and \<^verbatim>\<open>error\<close> (the logger or context name and the string parts
  of the message; objects passed for printing are left out), and a record of the calls
  made to descriptor methods (by field name) and to \<^verbatim>\<open>getSchema\<close> (by class name).
\<close>

record state =
  G_IS_DEV :: bool
  mem :: pstate
  console :: "(string \<times> string list) list"
  calls :: "event list"

definition log_error :: "string \<Rightarrow> string list \<Rightarrow> state \<Rightarrow> state" where
  "log_error logger parts s = s\<lparr>console := console s @ [(logger, parts)]\<rparr>"

definition record_call :: "event \<Rightarrow> state \<Rightarrow> state" where
  "record_call ev s = s\<lparr>calls := calls s @ [ev]\<rparr>"

definition object_at :: "state \<Rightarrow> ref \<Rightarrow> jsobject" where
  "object_at s r = objects (mem s) ! r"

definition set_object :: "ref \<Rightarrow> jsobject \<Rightarrow> state \<Rightarrow> state" where
  "set_object r ob s = s\<lparr>mem := (mem s)\<lparr>objects := (objects (mem s))[r := ob]\<rparr>\<rparr>"

definition schema_at :: "state \<Rightarrow> ref \<Rightarrow> schema" where
  "schema_at s r = schemas (mem s) ! r"

definition set_schema :: "ref \<Rightarrow> schema \<Rightarrow> state \<Rightarrow> state" where
  "set_schema r sch s = s\<lparr>mem := (mem s)\<lparr>schemas := (schemas (mem s))[r := sch]\<rparr>\<rparr>"

text \<open>
  Modelled from the spec: the global \<^verbatim>\<open>assert\<close> is not among the sources. A failed
  assertion is "fatal in development builds, tolerated with a logged error in
  production": it throws when \<^verbatim>\<open>G_IS_DEV\<close> holds and lets the caller go on otherwise.
\<close>

definition js_assert :: "bool \<Rightarrow> string \<Rightarrow> state \<Rightarrow> unit outcome \<times> state" where
  "js_assert cond msg s =
     (if cond \<or> \<not> G_IS_DEV s then (Returned (), s) else (Thrown (AssertionError msg), s))"

section \<open>The schema cache\<close>

text \<open>
  Both caches are created as \<^verbatim>\<open>{}\<close>, so a lookup \<^verbatim>\<open>cache[id]\<close> that finds no own
  property goes on to \<^verbatim>\<open>Object.prototype\<close>: for the names below it yields the
  inherited member (a function, or the prototype itself for \<^verbatim>\<open>__proto__\<close>), which is
  truthy and is neither \<^verbatim>\<open>undefined\<close> nor a class.
\<close>

definition objectPrototypeNames :: "string list" where
  "objectPrototypeNames =
     [''constructor'', ''hasOwnProperty'', ''isPrototypeOf'', ''propertyIsEnumerable'',
      ''toLocaleString'', ''toString'', ''valueOf'', ''__proto__'', ''__defineGetter__'',
      ''__defineSetter__'', ''__lookupGetter__'', ''__lookupSetter__'']"

text \<open>What \<^verbatim>\<open>globalSchemaCache[id]\<close> yields when it is not \<^verbatim>\<open>undefined\<close>.\<close>

datatype cached = SchemaObject ref | InheritedMember string

definition cacheLookup :: "(string \<times> ref) list \<Rightarrow> string \<Rightarrow> cached option" where
  "cacheLookup cache ident =
     (case map_of cache ident of
        Some sch \<Rightarrow> Some (SchemaObject sch)
      | None \<Rightarrow> if ident \<in> set objectPrototypeNames then Some (InheritedMember ident) else None)"

text \<open>What \<^verbatim>\<open>classnamesCache[id]\<close> yields when it is not \<^verbatim>\<open>undefined\<close>.\<close>

datatype claimant = ClassObject nat | InheritedClaim string

definition claimLookup :: "(string \<times> nat) list \<Rightarrow> string \<Rightarrow> claimant option" where
  "claimLookup cache ident =
     (case map_of cache ident of
        Some cls \<Rightarrow> Some (ClassObject cls)
      | None \<Rightarrow> if ident \<in> set objectPrototypeNames then Some (InheritedClaim ident) else None)"

text \<open>
  A class deriving from \<^verbatim>\<open>BasicSerializableObject\<close>: its identity (\<^verbatim>\<open>this\<close>, compared
  with \<^verbatim>\<open>===\<close>), \<^verbatim>\<open>this.name\<close>, the value of \<^verbatim>\<open>getId()\<close>, and its overridable
  \<^verbatim>\<open>getSchema()\<close>. The two caches are private to the module, so the code of a
  \<^verbatim>\<open>getSchema\<close> reaches them only by calling \<^verbatim>\<open>getCachedSchema\<close> of other classes
  (a derived class extends the cached schema of its parent); everything else it does
  works on the objects of the store. It is given here by the classes whose
  \<^verbatim>\<open>getCachedSchema\<close> it calls, in order, and by what it then builds from their
  results in the store.
\<close>

datatype jsclass =
  JSClass (clsIdentity: nat) (clsName: string) (getId: string) (superCalls: "jsclass list")
    (build: "cached list \<Rightarrow> schema list \<times> jsobject list \<Rightarrow> ref outcome \<times> schema list \<times> jsobject list")

text \<open>\<^verbatim>\<open>BasicSerializableObject.getSchema\<close>: \<^verbatim>\<open>return {};\<close>\<close>

definition BasicSerializableObject_getSchema ::
  "cached list \<Rightarrow> schema list \<times> jsobject list \<Rightarrow> ref outcome \<times> schema list \<times> jsobject list" where
  "BasicSerializableObject_getSchema supers st =
     (Returned (length (fst st)), (fst st @ [[]], snd st))"

text \<open>The block between \<^verbatim>\<open>dev:start\<close> and \<^verbatim>\<open>dev:end\<close> of \<^verbatim>\<open>getCachedSchema\<close>.\<close>

definition claimClassname :: "jsclass \<Rightarrow> state \<Rightarrow> unit outcome \<times> state" where
  "claimClassname cls s =
     (if G_IS_DEV s then
        (case js_assert
                (claimLookup (classnamesCache (mem s)) (getId cls) = Some (ClassObject (clsIdentity cls)) \<or>
                 claimLookup (classnamesCache (mem s)) (getId cls) = None)
                (''Class name taken twice: '' @ getId cls @ '' (from '' @ clsName cls @ '')'') s of
           (Thrown f, s1) \<Rightarrow> (Thrown f, s1)
         | (Returned u, s1) \<Rightarrow>
             (Returned (),
              s1\<lparr>mem := (mem s1)\<lparr>classnamesCache :=
                    assignProperty (getId cls) (clsIdentity cls) (classnamesCache (mem s1))\<rparr>\<rparr>))
      else (Returned (), s))"

text \<open>
  \<^verbatim>\<open>getCachedSchema\<close>, the call \<^verbatim>\<open>this.getSchema()\<close> it makes on a miss, and the calls
  of \<^verbatim>\<open>getCachedSchema\<close> that a \<^verbatim>\<open>getSchema\<close> makes in turn. Every run of a
  \<^verbatim>\<open>getSchema\<close> is recorded when it starts.
\<close>

fun getCachedSchema :: "jsclass \<Rightarrow> state \<Rightarrow> cached outcome \<times> state"
  and getSchema :: "jsclass \<Rightarrow> state \<Rightarrow> ref outcome \<times> state"
  and getCachedSchemas :: "jsclass list \<Rightarrow> state \<Rightarrow> cached list outcome \<times> state" where
  "getCachedSchema (JSClass this name ident supers body) s =
     (case claimClassname (JSClass this name ident supers body) s of
        (Thrown f, s1) \<Rightarrow> (Thrown f, s1)
      | (Returned u, s1) \<Rightarrow>
          (case cacheLookup (globalSchemaCache (mem s1)) ident of
             Some entry \<Rightarrow> (Returned entry, s1)
           | None \<Rightarrow>
               (case getSchema (JSClass this name ident supers body) s1 of
                  (Thrown f, s2) \<Rightarrow> (Thrown f, s2)
                | (Returned sch, s2) \<Rightarrow>
                    (Returned (SchemaObject sch),
                     s2\<lparr>mem := (mem s2)\<lparr>globalSchemaCache :=
                            assignProperty ident sch (globalSchemaCache (mem s2))\<rparr>\<rparr>))))"
| "getSchema (JSClass this name ident supers body) s =
     (case getCachedSchemas supers (record_call (GetSchemaCall name) s) of
        (Thrown f, s1) \<Rightarrow> (Thrown f, s1)
      | (Returned parents, s1) \<Rightarrow>
          (case body parents (schemas (mem s1), objects (mem s1)) of
             (out, schs, objs) \<Rightarrow> (out, s1\<lparr>mem := (mem s1)\<lparr>schemas := schs, objects := objs\<rparr>\<rparr>)))"
| "getCachedSchemas [] s = (Returned [], s)"
| "getCachedSchemas (cls # rest) s =
     (case getCachedSchema cls s of
        (Thrown f, s1) \<Rightarrow> (Thrown f, s1)
      | (Returned parent, s1) \<Rightarrow>
          (case getCachedSchemas rest s1 of
             (Thrown f, s2) \<Rightarrow> (Thrown f, s2)
           | (Returned parents, s2) \<Rightarrow> (Returned (parent # parents), s2)))"

section \<open>The generic engine\<close>

text \<open>
  Each \<^verbatim>\<open>for (const key in schema)\<close> loop is a recursion over the entries of the
  schema; its body is a function of its own that yields \<open>None\<close> when the loop goes on to
  the next key and \<open>Some\<close> of the outcome when the body returns or throws.
\<close>

text \<open>The body of the loop of \<^verbatim>\<open>serializeSchema\<close>. A descriptor is an object, hence
  truthy: the branch \<^verbatim>\<open>if (!schema[key])\<close> is never taken.\<close>

definition serializeField ::
  "ref \<Rightarrow> string \<Rightarrow> descriptor \<Rightarrow> ref \<Rightarrow> state \<Rightarrow> unit outcome option \<times> state" where
  "serializeField obj key d mergeWith s =
     (case (if \<not> objHasOwnProperty (object_at s obj) key
            then js_assert (objHasOwnProperty (object_at s obj) key)
                   (''serialization: invalid schema, property does not exist on object: '' @ key)
                   (log_error ''serialization''
                      [''Invalid schema, property'', key, ''does not exist on'', ''(schema='', '')''] s)
            else (Returned (), s)) of
        (Thrown f, s1) \<Rightarrow> (Some (Thrown f), s1)
      | (Returned u, s1) \<Rightarrow>
          (case serialize d (objGet (object_at s1 obj) key) of
             Thrown ex \<Rightarrow>
               (Some (Thrown ex),
                if G_IS_DEV s1
                then log_error ''serialization''
                       [''Serialization of'', ''failed on key '' @ [CHR 0x27] @ key @ [CHR 0x27] @ '' ->'',
                        ''(schema was'', '')'']
                       (record_call (DescriptorCall key CallSerialize) s1)
                else record_call (DescriptorCall key CallSerialize) s1)
           | Returned v \<Rightarrow>
               (None,
                set_object mergeWith (objSet (object_at s1 mergeWith) key v)
                  (record_call (DescriptorCall key CallSerialize) s1))))"

fun serializeFields :: "ref \<Rightarrow> schema \<Rightarrow> ref \<Rightarrow> state \<Rightarrow> unit outcome \<times> state" where
  "serializeFields obj [] mergeWith s = (Returned (), s)"
| "serializeFields obj ((key, d) # rest) mergeWith s =
     (case serializeField obj key d mergeWith s of
        (Some out, s1) \<Rightarrow> (out, s1)
      | (None, s1) \<Rightarrow> serializeFields obj rest mergeWith s1)"

text \<open>\<^verbatim>\<open>serializeSchema(obj, schema, mergeWith = {})\<close>: without a third argument a new
  empty object is allocated. The function returns \<^verbatim>\<open>mergeWith\<close>.\<close>

definition serializeSchema :: "ref \<Rightarrow> ref \<Rightarrow> ref option \<Rightarrow> state \<Rightarrow> ref outcome \<times> state" where
  "serializeSchema obj schema mergeWith s =
     (let (target, s0) =
            (case mergeWith of
               Some m \<Rightarrow> (m, s)
             | None \<Rightarrow>
                 (length (objects (mem s)),
                  s\<lparr>mem := (mem s)\<lparr>objects := objects (mem s) @
                        [\<lparr>className = ''Object'', props = []\<rparr>]\<rparr>\<rparr>))
      in case serializeFields obj (schema_at s0 schema) target s0 of
           (Thrown f, s1) \<Rightarrow> (Thrown f, s1)
         | (Returned u, s1) \<Rightarrow> (Returned target, s1))"

text \<open>The body of the loop of \<^verbatim>\<open>deserializeSchema\<close>.\<close>

definition deserializeField ::
  "ref \<Rightarrow> string \<Rightarrow> descriptor \<Rightarrow> jsval \<Rightarrow> state \<Rightarrow> jsval outcome option \<times> state" where
  "deserializeField obj key d data s =
     (case hasOwnProperty data key of
        Thrown f \<Rightarrow> (Some (Thrown f), s)
      | Returned False \<Rightarrow>
          (Some (Returned (JStr (''Missing key in schema: '' @ key @ '' of class '' @
                                 className (object_at s obj)))),
           log_error ''serialization'' [''Data'', ''does not contain'', key, ''(schema:'', '')''] s)
      | Returned True \<Rightarrow>
          (let s1 = record_call (DescriptorCall key CallAllowNull) s in
           if \<not> allowNull d \<and> (getProperty data key = JNull \<or> getProperty data key = JUndefined)
           then (Some (Returned (JStr (''Non-nullable entry is null: '' @ key @ '' of class '' @
                                       className (object_at s1 obj)))),
                 log_error ''serialization''
                   [''Data'', ''has null value for'', key, ''(schema:'', '')''] s1)
           else
             (case deserializeWithVerify d (getProperty data key) (object_at s1 obj) key
                     (objGet (object_at s1 obj) ''root'') of
                (ob, errorStatus) \<Rightarrow>
                  (let s2 = set_object obj ob
                              (record_call (DescriptorCall key CallDeserializeWithVerify) s1) in
                   if isError errorStatus
                   then (Some (Returned (JStr (the errorStatus))),
                         log_error ''serialization''
                           [''Deserialization failed with error '' @ [CHR 0x27] @
                              the errorStatus @ [CHR 0x27] @ '' on object'',
                            ''and key'', key, ''(root? ='',
                            if truthy (objGet (object_at s2 obj) ''root'') then ''y'' else ''n'',
                            '')''] s2)
                   else (None, s2)))))"

text \<open>Falling off the end of the function returns \<^verbatim>\<open>undefined\<close>.\<close>

fun deserializeFields :: "ref \<Rightarrow> schema \<Rightarrow> jsval \<Rightarrow> state \<Rightarrow> jsval outcome \<times> state" where
  "deserializeFields obj [] data s = (Returned JUndefined, s)"
| "deserializeFields obj ((key, d) # rest) data s =
     (case deserializeField obj key d data s of
        (Some out, s1) \<Rightarrow> (out, s1)
      | (None, s1) \<Rightarrow> deserializeFields obj rest data s1)"

text \<open>\<^verbatim>\<open>deserializeSchema(obj, schema, data, baseclassErrorResult = null)\<close>\<close>

definition deserializeSchema ::
  "ref \<Rightarrow> ref \<Rightarrow> jsval \<Rightarrow> jsval \<Rightarrow> state \<Rightarrow> jsval outcome \<times> state" where
  "deserializeSchema obj schema data baseclassErrorResult s =
     (if truthy baseclassErrorResult then (Returned baseclassErrorResult, s)
      else if \<not> truthy data
      then (Returned (JStr ''Got null data''),
            log_error ''serialization''
              [''Got '' @ [CHR 0x27] @ ''NULL'' @ [CHR 0x27] @ '' data for'', ''and schema'', ''!''] s)
      else deserializeFields obj (schema_at s schema) data s)"

text \<open>The body of the loop of \<^verbatim>\<open>verifySchema\<close>.\<close>

definition verifyField ::
  "string \<Rightarrow> descriptor \<Rightarrow> jsval \<Rightarrow> state \<Rightarrow> jsval outcome option \<times> state" where
  "verifyField key d data s =
     (case hasOwnProperty data key of
        Thrown f \<Rightarrow> (Some (Thrown f), s)
      | Returned False \<Rightarrow>
          (Some (Returned (JStr (''verify: missing key required by schema in stored data: '' @ key))),
           log_error ''verify'' [''Data'', ''does not contain'', key, ''(schema:'', '')''] s)
      | Returned True \<Rightarrow>
          (let s1 = record_call (DescriptorCall key CallAllowNull) s in
           if \<not> allowNull d \<and> (getProperty data key = JNull \<or> getProperty data key = JUndefined)
           then (Some (Returned (JStr (''verify: non-nullable entry is null: '' @ key))),
                 log_error ''verify'' [''Data'', ''has null value for'', key, ''(schema:'', '')''] s1)
           else
             (let errorStatus = verifySerializedValue d (getProperty data key);
                  s2 = record_call (DescriptorCall key CallVerifySerializedValue) s1 in
              if isError errorStatus
              then (Some (Returned (JStr (''verify: '' @ the errorStatus))),
                    log_error ''verify'' [the errorStatus] s2)
              else (None, s2))))"

fun verifyFields :: "schema \<Rightarrow> jsval \<Rightarrow> state \<Rightarrow> jsval outcome \<times> state" where
  "verifyFields [] data s = (Returned JUndefined, s)"
| "verifyFields ((key, d) # rest) data s =
     (case verifyField key d data s of
        (Some out, s1) \<Rightarrow> (out, s1)
      | (None, s1) \<Rightarrow> verifyFields rest data s1)"

definition verifySchema :: "ref \<Rightarrow> jsval \<Rightarrow> state \<Rightarrow> jsval outcome \<times> state" where
  "verifySchema schema data s = verifyFields (schema_at s schema) data s"

section \<open>Schema extension\<close>

text \<open>The body of the loop of \<^verbatim>\<open>extendSchema\<close>, writing into the object at address
  \<open>result\<close>; both branches go on to the next key. The test
  \<^verbatim>\<open>result.hasOwnProperty(key)\<close> is the inherited one, a schema being taken to have no
  field named \<^verbatim>\<open>hasOwnProperty\<close>; the assignment \<^verbatim>\<open>result[key] = newOne[key]\<close> puts
  a new key where \<^verbatim>\<open>for ... in\<close> will list it.\<close>

definition extendField :: "ref \<Rightarrow> string \<Rightarrow> descriptor \<Rightarrow> state \<Rightarrow> state" where
  "extendField result key d s =
     (if key \<in> set (map fst (schema_at s result))
      then log_error ''serialization'' [''Extend schema got duplicate key:'', key] s
      else set_schema result (assignProperty key d (schema_at s result)) s)"

fun extendFields :: "ref \<Rightarrow> schema \<Rightarrow> state \<Rightarrow> state" where
  "extendFields result [] s = s"
| "extendFields result ((key, d) # rest) s = extendFields result rest (extendField result key d s)"

text \<open>\<^verbatim>\<open>Object.assign({}, base)\<close> allocates a new object and assigns it the entries of
  \<^verbatim>\<open>base\<close>.\<close>

definition extendSchema :: "ref \<Rightarrow> ref \<Rightarrow> state \<Rightarrow> ref \<times> state" where
  "extendSchema base newOne s =
     (let result = length (schemas (mem s));
          s1 = s\<lparr>mem := (mem s)\<lparr>schemas := schemas (mem s) @ [objectAssign [] (schema_at s base)]\<rparr>\<rparr>
      in (result, extendFields result (schema_at s1 newOne) s1))"

section \<open>Example descriptors\<close>

text \<open>
  Modelled from the spec: the descriptor classes of \<^verbatim>\<open>serialization_data_types.js\<close>
  are not among the sources; only their names are (the import list and the \<^verbatim>\<open>types\<close>
  table of \<^verbatim>\<open>serialization.js\<close>). The engine takes any descriptor; to run it on
  examples a few descriptors are given here, the ones the examples use: four primitive
  leaves, which "serialize to/from a plain scalar" and whose "verify checks scalar
  kind/range", and the enum, which "verifies the raw value is a member of a fixed set of
  string literals".
\<close>

datatype dataType =
    TypeInteger
  | TypePositiveInteger
  | TypeString
  | TypeBoolean
  | TypeEnum "string list"

text \<open>Modelled from the spec: the shape check behind \<^verbatim>\<open>verifySerializedValue\<close>:
  \<open>None\<close> when the raw value is accepted, the error description otherwise (the spec
  fixes no wording for the descriptions).\<close>

fun verifyValue :: "dataType \<Rightarrow> jsval \<Rightarrow> string option" where
  "verifyValue TypeInteger raw = (case raw of JNum n \<Rightarrow> None | _ \<Rightarrow> Some ''Not a valid number'')"
| "verifyValue TypePositiveInteger raw =
     (case raw of
        JNum n \<Rightarrow> if n < 0 then Some ''Negative value for positive integer'' else None
      | _ \<Rightarrow> Some ''Not a valid number'')"
| "verifyValue TypeString raw = (case raw of JStr str \<Rightarrow> None | _ \<Rightarrow> Some ''Not a valid string'')"
| "verifyValue TypeBoolean raw = (case raw of JBool b \<Rightarrow> None | _ \<Rightarrow> Some ''Not a boolean'')"
| "verifyValue (TypeEnum values) raw =
     (case raw of
        JStr str \<Rightarrow> if str \<in> set values then None else Some (''Unknown enum value: '' @ str)
      | _ \<Rightarrow> Some ''Unknown enum value'')"

text \<open>
  Modelled from the spec: the four operations of such a descriptor. \<open>allowNull\<close> is
  "true only for Nullable-wrapped descriptors"; \<open>serialize\<close> yields the scalar;
  \<open>deserializeWithVerify\<close> "first verifies rawValue's shape, then converts and assigns
  into containingObject's field fieldName" and "returns an error description (not a
  thrown fault) on malformed input".
\<close>

definition descriptorOf :: "dataType \<Rightarrow> descriptor" where
  "descriptorOf t =
     \<lparr>allowNull = False,
      serialize = (\<lambda>v. Returned v),
      deserializeWithVerify =
        (\<lambda>raw targetObject targetKey root.
           case verifyValue t raw of
             Some e \<Rightarrow> (targetObject, Some e)
           | None \<Rightarrow> (objSet targetObject targetKey raw, None)),
      verifySerializedValue = verifyValue t\<rparr>"

section \<open>Auxiliary notions and a running example\<close>

text \<open>The descriptor calls of a verification walk: the \<^verbatim>\<open>allowNull()\<close> query and
  \<^verbatim>\<open>verifySerializedValue\<close>.\<close>

fun verifyCall :: "event \<Rightarrow> bool" where
  "verifyCall (DescriptorCall key m) = (m = CallAllowNull \<or> m = CallVerifySerializedValue)"
| "verifyCall (GetSchemaCall c) = False"

text \<open>The end-to-end scenario of the spec: the schema
  \<^verbatim>\<open>{level: types.uint, reward: types.enum(["none", "belt"])}\<close>, where
  \<^verbatim>\<open>types.uint\<close> is \<^verbatim>\<open>new TypePositiveInteger()\<close> and \<^verbatim>\<open>types.enum(values)\<close> is
  \<^verbatim>\<open>new TypeEnum(values)\<close>.\<close>

definition goalSchema :: schema where
  "goalSchema =
     [(''level'', descriptorOf TypePositiveInteger),
      (''reward'', descriptorOf (TypeEnum [''none'', ''belt'']))]"

text \<open>A store with that schema at address 0, the empty schema at address 1, a fresh
  object of class \<open>Goal\<close> at address 0, and nothing cached.\<close>

definition goalState :: state where
  "goalState =
     \<lparr>G_IS_DEV = True,
      mem = \<lparr>schemas = [goalSchema, []],
             objects = [\<lparr>className = ''Goal'', props = []\<rparr>],
             globalSchemaCache = [],
             classnamesCache = []\<rparr>,
      console = [],
      calls = []\<rparr>"

text \<open>The diagnostic \<^verbatim>\<open>logger.error("Extend schema got duplicate key:", key)\<close>.\<close>

definition duplicateKeyDiagnostic :: "string \<Rightarrow> string \<times> string list" where
  "duplicateKeyDiagnostic key = (''serialization'', [''Extend schema got duplicate key:'', key])"

text \<open>A store for the extension examples: the schemas \<^verbatim>\<open>{a: types.int}\<close>,
  \<^verbatim>\<open>{b: types.string}\<close> and \<^verbatim>\<open>{a: types.bool}\<close> at the addresses 0, 1 and 2, the
  first of them cached as the schema of a class \<open>Parent\<close>.\<close>

definition extendState :: state where
  "extendState =
     \<lparr>G_IS_DEV = True,
      mem = \<lparr>schemas = [[(''a'', descriptorOf TypeInteger)],
                        [(''b'', descriptorOf TypeString)],
                        [(''a'', descriptorOf TypeBoolean)]],
             objects = [],
             globalSchemaCache = [(''Parent'', 0)],
             classnamesCache = [(''Parent'', 0)]\<rparr>,
      console = [],
      calls = []\<rparr>"

text \<open>A store for an extension with an array index among the keys: the schemas
  \<^verbatim>\<open>{b: types.int}\<close> and \<^verbatim>\<open>{1: types.string}\<close> at the addresses 0 and 1.\<close>

definition indexedState :: state where
  "indexedState =
     \<lparr>G_IS_DEV = True,
      mem = \<lparr>schemas = [[(''b'', descriptorOf TypeInteger)],
                        [(''1'', descriptorOf TypeString)]],
             objects = [],
             globalSchemaCache = [],
             classnamesCache = []\<rparr>,
      console = [],
      calls = []\<rparr>"

text \<open>The descriptor calls made for the field \<open>key\<close>.\<close>

fun callOn :: "string \<Rightarrow> event \<Rightarrow> bool" where
  "callOn key (DescriptorCall k m) = (k = key)"
| "callOn key (GetSchemaCall c) = False"

text \<open>Every field of the schema is an own property of the object, and the
  \<^verbatim>\<open>serialize\<close> of its descriptor returns on the value found there.\<close>

definition serializable :: "state \<Rightarrow> ref \<Rightarrow> schema \<Rightarrow> bool" where
  "serializable s obj entries =
     (\<forall>(key, d) \<in> set entries.
        objHasOwnProperty (object_at s obj) key \<and>
        (\<exists>v. serialize d (objGet (object_at s obj) key) = Returned v))"

text \<open>A store for the serialization example: the schema of the running example, the
  object \<^verbatim>\<open>{level: 3, reward: "belt"}\<close> at address 0, and at address 1 an object
  \<^verbatim>\<open>{uid: 7}\<close> that an earlier call has filled.\<close>

definition savedGoalState :: state where
  "savedGoalState =
     \<lparr>G_IS_DEV = True,
      mem = \<lparr>schemas = [goalSchema],
             objects = [\<lparr>className = ''Goal'',
                         props = [(''level'', JNum 3), (''reward'', JStr ''belt'')]\<rparr>,
                        \<lparr>className = ''Object'', props = [(''uid'', JNum 7)]\<rparr>],
             globalSchemaCache = [],
             classnamesCache = []\<rparr>,
      console = [],
      calls = []\<rparr>"

text \<open>\<^verbatim>\<open>class HubGoals extends BasicSerializableObject\<close> of \<^verbatim>\<open>game/hub_goals.js\<close>:
  \<^verbatim>\<open>getId()\<close> returns \<^verbatim>\<open>"HubGoals"\<close>, and \<^verbatim>\<open>getSchema\<close> is inherited.\<close>

definition HubGoals :: jsclass where
  "HubGoals = JSClass 0 ''HubGoals'' ''HubGoals'' [] BasicSerializableObject_getSchema"

text \<open>What a later state has kept of the two caches of an earlier one: the build flag,
  and whatever a lookup in either cache found.\<close>

definition cachesKept :: "state \<Rightarrow> state \<Rightarrow> bool" where
  "cachesKept s s' =
     (G_IS_DEV s' = G_IS_DEV s
      \<and> (\<forall>k e. cacheLookup (globalSchemaCache (mem s)) k = Some e \<longrightarrow>
                cacheLookup (globalSchemaCache (mem s')) k = Some e)
      \<and> (\<forall>k c. claimLookup (classnamesCache (mem s)) k = Some c \<longrightarrow>
                claimLookup (classnamesCache (mem s')) k = Some c))"

text \<open>A production build of the running example: the block between \<^verbatim>\<open>dev:start\<close> and
  \<^verbatim>\<open>dev:end\<close> is compiled out.\<close>

definition releaseState :: state where
  "releaseState = goalState\<lparr>G_IS_DEV := False\<rparr>"

text \<open>A class whose identifier is the name of a member of \<^verbatim>\<open>Object.prototype\<close>.\<close>

definition Formatter :: jsclass where
  "Formatter = JSClass 1 ''Formatter'' ''toString'' [] BasicSerializableObject_getSchema"

section \<open>Verification walks\<close>

lemma isError_simps [simp]: "isError None = False" "isError (Some e) = (e \<noteq> [])"
  by (simp_all add: isError_def)

lemma verifyField_effect:
  "\<exists>msgs evs. snd (verifyField key d data s) =
       s\<lparr>console := console s @ msgs, calls := calls s @ evs\<rparr> \<and> list_all verifyCall evs"
proof (cases "hasOwnProperty data key")
  case (Thrown f)
  then have "snd (verifyField key d data s) = s\<lparr>console := console s @ [], calls := calls s @ []\<rparr>"
    by (simp add: verifyField_def)
  moreover have "list_all verifyCall []" by simp
  ultimately show ?thesis by blast
next
  case (Returned b)
  show ?thesis
  proof (cases b)
    case False
    with Returned have "snd (verifyField key d data s) =
        s\<lparr>console := console s @ [(''verify'', [''Data'', ''does not contain'', key, ''(schema:'', '')''])],
          calls := calls s @ []\<rparr>"
      by (simp add: verifyField_def log_error_def)
    moreover have "list_all verifyCall []" by simp
    ultimately show ?thesis by blast
  next
    case True
    let ?e1 = "DescriptorCall key CallAllowNull"
    let ?e2 = "DescriptorCall key CallVerifySerializedValue"
    show ?thesis
    proof (cases "\<not> allowNull d \<and> (getProperty data key = JNull \<or> getProperty data key = JUndefined)")
      case nullish: True
      with Returned True have "snd (verifyField key d data s) =
          s\<lparr>console := console s @ [(''verify'', [''Data'', ''has null value for'', key, ''(schema:'', '')''])],
            calls := calls s @ [?e1]\<rparr>"
        by (simp add: verifyField_def log_error_def record_call_def Let_def)
      moreover have "list_all verifyCall [?e1]" by simp
      ultimately show ?thesis by blast
    next
      case present: False
      show ?thesis
      proof (cases "isError (verifySerializedValue d (getProperty data key))")
        case failed: True
        with Returned True present have "snd (verifyField key d data s) =
            s\<lparr>console := console s @
                  [(''verify'', [the (verifySerializedValue d (getProperty data key))])],
              calls := calls s @ [?e1, ?e2]\<rparr>"
          by (auto simp: verifyField_def log_error_def record_call_def Let_def)
        moreover have "list_all verifyCall [?e1, ?e2]" by simp
        ultimately show ?thesis by blast
      next
        case passed: False
        with Returned True present have "snd (verifyField key d data s) =
            s\<lparr>console := console s @ [], calls := calls s @ [?e1, ?e2]\<rparr>"
          by (auto simp: verifyField_def record_call_def Let_def)
        moreover have "list_all verifyCall [?e1, ?e2]" by simp
        ultimately show ?thesis by blast
      qed
    qed
  qed
qed

lemma verifyFields_effect:
  "\<exists>msgs evs. snd (verifyFields sch data s) =
       s\<lparr>console := console s @ msgs, calls := calls s @ evs\<rparr> \<and> list_all verifyCall evs"
proof (induction sch arbitrary: s)
  case Nil
  have "snd (verifyFields [] data s) = s\<lparr>console := console s @ [], calls := calls s @ []\<rparr>"
    by simp
  moreover have "list_all verifyCall []" by simp
  ultimately show ?case by blast
next
  case (Cons p rest)
  obtain key d where p: "p = (key, d)" by (cases p)
  obtain out s1 where step: "verifyField key d data s = (out, s1)"
    by (cases "verifyField key d data s")
  obtain m1 e1 where s1: "s1 = s\<lparr>console := console s @ m1, calls := calls s @ e1\<rparr>"
    and e1: "list_all verifyCall e1"
    using verifyField_effect[of key d data s] step by auto
  show ?case
  proof (cases out)
    case (Some r)
    with step p have "snd (verifyFields (p # rest) data s) = s1" by simp
    with s1 e1 show ?thesis by blast
  next
    case None
    obtain m2 e2 where
      s2: "snd (verifyFields rest data s1) = s1\<lparr>console := console s1 @ m2, calls := calls s1 @ e2\<rparr>"
      and e2: "list_all verifyCall e2"
      using Cons.IH[of s1] by auto
    have "snd (verifyFields (p # rest) data s) =
        s\<lparr>console := console s @ (m1 @ m2), calls := calls s @ (e1 @ e2)\<rparr>"
      using None step p s1 s2 by simp
    moreover have "list_all verifyCall (e1 @ e2)" using e1 e2 by simp
    ultimately show ?thesis by blast
  qed
qed

text \<open>
  Claim C6. For every schema and raw payload, \<^verbatim>\<open>verifySchema\<close> walks the fields calling
  of each descriptor only \<^verbatim>\<open>allowNull\<close> (the null test of the walk) and
  \<^verbatim>\<open>verifySerializedValue\<close>, never \<^verbatim>\<open>serialize\<close> or \<^verbatim>\<open>deserializeWithVerify\<close>, and
  it mutates nothing: the store (schema objects, plain objects, both caches) and the
  build flag are the same after the call as before it, whether the call returns or
  throws. All it leaves behind is what it printed through \<^verbatim>\<open>error\<close>.
\<close>

theorem verifySchema_mutates_nothing:
  "\<exists>msgs evs. snd (verifySchema schema data s) =
       s\<lparr>console := console s @ msgs, calls := calls s @ evs\<rparr> \<and> list_all verifyCall evs"
  unfolding verifySchema_def by (rule verifyFields_effect)

theorem verifySchema_mutates_nothing_witness:
  "mem (snd (verifySchema 0 (JObj [(''level'', JNum 3), (''reward'', JStr ''nuclear'')]) goalState))
     = mem goalState
   \<and> calls (snd (verifySchema 0 (JObj [(''level'', JNum 3), (''reward'', JStr ''nuclear'')]) goalState))
     = [DescriptorCall ''level'' CallAllowNull, DescriptorCall ''level'' CallVerifySerializedValue,
        DescriptorCall ''reward'' CallAllowNull, DescriptorCall ''reward'' CallVerifySerializedValue]
   \<and> fst (verifySchema 0 (JObj [(''level'', JNum 3), (''reward'', JStr ''nuclear'')]) goalState)
     = Returned (JStr ''verify: Unknown enum value: nuclear'')"
proof -
  let ?data = "JObj [(''level'', JNum 3), (''reward'', JStr ''nuclear'')]"
  obtain msgs evs where
    "snd (verifySchema 0 ?data goalState) =
       goalState\<lparr>console := console goalState @ msgs, calls := calls goalState @ evs\<rparr>"
    using verifySchema_mutates_nothing[of 0 ?data goalState] by blast
  then have "mem (snd (verifySchema 0 ?data goalState)) = mem goalState" by simp
  moreover have "calls (snd (verifySchema 0 ?data goalState)) =
      [DescriptorCall ''level'' CallAllowNull, DescriptorCall ''level'' CallVerifySerializedValue,
       DescriptorCall ''reward'' CallAllowNull, DescriptorCall ''reward'' CallVerifySerializedValue]"
    by (simp add: verifySchema_def goalState_def goalSchema_def schema_at_def verifyField_def
        descriptorOf_def record_call_def log_error_def Let_def)
  moreover have "fst (verifySchema 0 ?data goalState) =
      Returned (JStr ''verify: Unknown enum value: nuclear'')"
    by (simp add: verifySchema_def goalState_def goalSchema_def schema_at_def verifyField_def
        descriptorOf_def record_call_def log_error_def Let_def)
  ultimately show ?thesis by simp
qed

section \<open>Absent and falsy payloads\<close>

text \<open>
  Claim C8. The claim is that \<^verbatim>\<open>verifySchema\<close> and \<^verbatim>\<open>deserializeSchema\<close> report
  data errors by returning a description and never throw, also for an absent payload.
  \<^verbatim>\<open>deserializeSchema\<close> returns "Got null data" for \<^verbatim>\<open>null\<close>, but \<^verbatim>\<open>verifySchema\<close>
  has no such guard: with the schema of the running example (or any schema with at least
  one field) and the payload \<^verbatim>\<open>null\<close>, the call \<^verbatim>\<open>data.hasOwnProperty(key)\<close> of its
  first round throws a TypeError. (Against the empty schema the same payload passes
  verification, where \<^verbatim>\<open>deserializeSchema\<close> reports "Got null data".)
\<close>

theorem verifySchema_null_payload_throws:
  "fst (verifySchema 0 JNull goalState) = Thrown TypeError
   \<and> fst (verifySchema 0 JUndefined goalState) = Thrown TypeError
   \<and> fst (verifySchema 1 JNull goalState) = Returned JUndefined
   \<and> fst (deserializeSchema 0 0 JNull JNull goalState) = Returned (JStr ''Got null data'')
   \<and> fst (deserializeSchema 0 1 JNull JNull goalState) = Returned (JStr ''Got null data'')"
  by (simp add: verifySchema_def deserializeSchema_def goalState_def goalSchema_def schema_at_def
      verifyField_def)

text \<open>
  Claim C9. Called without an inherited error, \<^verbatim>\<open>deserializeSchema\<close> returns
  "Got null data" whenever the raw data is falsy: \<^verbatim>\<open>undefined\<close>, \<^verbatim>\<open>null\<close>,
  \<^verbatim>\<open>false\<close>, 0, \<^verbatim>\<open>NaN\<close> or the empty string. It does so before it looks at any field of
  the schema: whatever the schema is, also when it is empty, no descriptor is called and
  the store is left as it was.
\<close>

theorem deserializeSchema_falsy_data:
  assumes "\<not> truthy baseclassErrorResult"
    and "data \<in> {JUndefined, JNull, JBool False, JNum 0, JNaN, JStr []}"
  shows "fst (deserializeSchema obj schema data baseclassErrorResult s) =
           Returned (JStr ''Got null data'')
       \<and> calls (snd (deserializeSchema obj schema data baseclassErrorResult s)) = calls s
       \<and> mem (snd (deserializeSchema obj schema data baseclassErrorResult s)) = mem s"
  using assms by (auto simp: deserializeSchema_def log_error_def)

theorem deserializeSchema_falsy_data_witness:
  "\<not> truthy JNull \<and> JNum 0 \<in> {JUndefined, JNull, JBool False, JNum 0, JNaN, JStr []}
   \<and> schema_at goalState 1 = []
   \<and> fst (deserializeSchema 0 1 (JNum 0) JNull goalState) = Returned (JStr ''Got null data'')
   \<and> calls (snd (deserializeSchema 0 1 (JNum 0) JNull goalState)) = calls goalState
   \<and> mem (snd (deserializeSchema 0 1 (JNum 0) JNull goalState)) = mem goalState"
proof -
  have h1: "\<not> truthy JNull" by simp
  have h2: "JNum 0 \<in> {JUndefined, JNull, JBool False, JNum 0, JNaN, JStr []}" by simp
  have "schema_at goalState 1 = []" by (simp add: schema_at_def goalState_def)
  with h1 h2 deserializeSchema_falsy_data[OF h1 h2, of 0 1 goalState] show ?thesis by simp
qed

section \<open>Properties of assignment\<close>

lemma set_insertIndexed: "set (insertIndexed i key v al) = insert (key, v) (set al)"
  by (induction al) (auto split: option.splits)

lemma map_of_insertIndexed:
  "key \<notin> fst ` set al \<Longrightarrow> map_of (insertIndexed i key v al) = (map_of al)(key \<mapsto> v)"
proof (induction al)
  case Nil
  show ?case by simp
next
  case (Cons p ps)
  then have ne: "fst p \<noteq> key" and rest: "key \<notin> fst ` set ps" by auto
  obtain k w where p: "p = (k, w)" by (cases p)
  show ?case
    using Cons.IH[OF rest] ne p by (auto split: option.splits simp: fun_upd_twist)
qed

lemma map_of_assignProperty: "map_of (assignProperty key v al) = (map_of al)(key \<mapsto> v)"
proof (cases "key \<in> fst ` set al")
  case True
  then show ?thesis by (simp add: assignProperty_def update_conv')
next
  case False
  then have none: "map_of al key = None" by (simp add: map_of_eq_None_iff)
  have "map_of (al @ [(key, v)]) x = ((map_of al)(key \<mapsto> v)) x" for x
    using none by (cases "map_of al x") (auto simp: map_add_def)
  then have "map_of (al @ [(key, v)]) = (map_of al)(key \<mapsto> v)" by (rule ext)
  with False show ?thesis
    by (simp add: assignProperty_def map_of_insertIndexed split: option.splits)
qed

lemma keys_assignProperty: "fst ` set (assignProperty key v al) = insert key (fst ` set al)"
  by (auto simp: assignProperty_def set_insertIndexed dom_update split: option.splits)

lemma distinct_insertIndexed:
  "key \<notin> fst ` set al \<Longrightarrow> distinct (map fst al) \<Longrightarrow> distinct (map fst (insertIndexed i key v al))"
  by (induction al) (auto split: option.splits simp: set_insertIndexed)

lemma distinct_assignProperty:
  "distinct (map fst al) \<Longrightarrow> distinct (map fst (assignProperty key v al))"
  by (auto simp: assignProperty_def distinct_insertIndexed distinct_update split: option.splits)

lemma assignProperty_same: "map_of al key = Some v \<Longrightarrow> assignProperty key v al = al"
proof -
  assume a: "map_of al key = Some v"
  then have "key \<in> fst ` set al" by (metis map_of_eq_None_iff option.distinct(1))
  with a show ?thesis by (simp add: assignProperty_def update_triv)
qed

section \<open>Extending a schema\<close>

lemma objectAssign_Cons:
  "objectAssign target (p # ps) = objectAssign (assignProperty (fst p) (snd p) target) ps"
  by (simp add: objectAssign_def)

lemma keys_objectAssign: "fst ` set (objectAssign target source) = fst ` set target \<union> fst ` set source"
proof (induction source arbitrary: target)
  case Nil
  show ?case by (simp add: objectAssign_def)
next
  case (Cons p ps)
  show ?case unfolding objectAssign_Cons Cons.IH by (auto simp: keys_assignProperty)
qed

lemma distinct_objectAssign:
  "distinct (map fst target) \<Longrightarrow> distinct (map fst (objectAssign target source))"
proof (induction source arbitrary: target)
  case Nil
  then show ?case by (simp add: objectAssign_def)
next
  case (Cons p ps)
  show ?case unfolding objectAssign_Cons
    by (rule Cons.IH) (rule distinct_assignProperty[OF Cons.prems])
qed

lemma map_of_objectAssign:
  "distinct (map fst source) \<Longrightarrow> map_of (objectAssign target source) = map_of target ++ map_of source"
proof (induction source arbitrary: target)
  case Nil
  show ?case by (simp add: objectAssign_def)
next
  case (Cons p ps)
  obtain k v where p: "p = (k, v)" by (cases p)
  from Cons.prems p have d: "distinct (map fst ps)" and notin: "map_of ps k = None"
    by (auto simp: map_of_eq_None_iff)
  have "map_of (objectAssign target (p # ps)) x = (map_of target ++ map_of (p # ps)) x" for x
    unfolding objectAssign_Cons Cons.IH[OF d]
    using notin p by (cases "map_of ps x") (auto simp: map_add_def map_of_assignProperty)
  then show ?case by (rule ext)
qed

text \<open>The loop only ever writes the object it was given, which sits at the end of the
  store.\<close>

lemma extendFields_frame:
  assumes "schemas (mem s) = xs @ [acc]" and "result = length xs"
  shows "\<exists>acc' msgs. extendFields result entries s =
     s\<lparr>mem := (mem s)\<lparr>schemas := xs @ [acc']\<rparr>, console := console s @ msgs\<rparr>"
  using assms
proof (induction entries arbitrary: s acc)
  case Nil
  then have "extendFields result [] s =
      s\<lparr>mem := (mem s)\<lparr>schemas := xs @ [acc]\<rparr>, console := console s @ []\<rparr>"
    by simp
  then show ?case by blast
next
  case (Cons p rest)
  obtain key d where p: "p = (key, d)" by (cases p)
  have at: "schema_at s result = acc" using Cons.prems by (simp add: schema_at_def)
  show ?case
  proof (cases "key \<in> fst ` set acc")
    case True
    let ?s1 = "log_error ''serialization'' [''Extend schema got duplicate key:'', key] s"
    have step: "extendField result key d s = ?s1" using True at by (simp add: extendField_def)
    have "schemas (mem ?s1) = xs @ [acc]" using Cons.prems by (simp add: log_error_def)
    from Cons.IH[OF this Cons.prems(2)] obtain acc' msgs where
      "extendFields result rest ?s1 =
         ?s1\<lparr>mem := (mem ?s1)\<lparr>schemas := xs @ [acc']\<rparr>, console := console ?s1 @ msgs\<rparr>"
      by blast
    then have "extendFields result (p # rest) s =
        s\<lparr>mem := (mem s)\<lparr>schemas := xs @ [acc']\<rparr>,
          console := console s @ ((''serialization'', [''Extend schema got duplicate key:'', key]) # msgs)\<rparr>"
      using step p by (simp add: log_error_def)
    then show ?thesis by blast
  next
    case False
    let ?s1 = "set_schema result (assignProperty key d acc) s"
    have step: "extendField result key d s = ?s1" using False at by (simp add: extendField_def)
    have "schemas (mem ?s1) = xs @ [assignProperty key d acc]"
      using Cons.prems by (simp add: set_schema_def)
    from Cons.IH[OF this Cons.prems(2)] obtain acc' msgs where
      "extendFields result rest ?s1 =
         ?s1\<lparr>mem := (mem ?s1)\<lparr>schemas := xs @ [acc']\<rparr>, console := console ?s1 @ msgs\<rparr>"
      by blast
    then have "extendFields result (p # rest) s =
        s\<lparr>mem := (mem s)\<lparr>schemas := xs @ [acc']\<rparr>, console := console s @ msgs\<rparr>"
      using step p by (simp add: set_schema_def)
    then show ?thesis by blast
  qed
qed

text \<open>With the keys of the added entries distinct, as the keys of an object are, the
  loop adds the entries whose key is new and reports the others, in order.\<close>

lemma extendFields_mapping:
  assumes "schemas (mem s) = xs @ [acc]" and "result = length xs"
    and "distinct (map fst entries)"
  shows "\<exists>acc'. extendFields result entries s =
           s\<lparr>mem := (mem s)\<lparr>schemas := xs @ [acc']\<rparr>,
             console := console s @
               map duplicateKeyDiagnostic (filter (\<lambda>k. k \<in> fst ` set acc) (map fst entries))\<rparr>
         \<and> map_of acc' = map_of entries ++ map_of acc
         \<and> fst ` set acc' = fst ` set acc \<union> fst ` set entries
         \<and> (distinct (map fst acc) \<longrightarrow> distinct (map fst acc'))"
  using assms
proof (induction entries arbitrary: s acc)
  case Nil
  then have "extendFields result [] s =
      s\<lparr>mem := (mem s)\<lparr>schemas := xs @ [acc]\<rparr>,
        console := console s @
          map duplicateKeyDiagnostic (filter (\<lambda>k. k \<in> fst ` set acc) (map fst []))\<rparr>"
    by simp
  then show ?case by auto
next
  case (Cons p rest)
  obtain key d where p: "p = (key, d)" by (cases p)
  have at: "schema_at s result = acc" using Cons.prems by (simp add: schema_at_def)
  have dr: "distinct (map fst rest)" and notin: "key \<notin> fst ` set rest"
    using Cons.prems p by auto
  show ?case
  proof (cases "key \<in> fst ` set acc")
    case True
    let ?s1 = "log_error ''serialization'' [''Extend schema got duplicate key:'', key] s"
    have step: "extendField result key d s = ?s1" using True at by (simp add: extendField_def)
    have "schemas (mem ?s1) = xs @ [acc]" using Cons.prems by (simp add: log_error_def)
    from Cons.IH[OF this Cons.prems(2) dr] obtain acc' where
      run: "extendFields result rest ?s1 =
           ?s1\<lparr>mem := (mem ?s1)\<lparr>schemas := xs @ [acc']\<rparr>,
             console := console ?s1 @
               map duplicateKeyDiagnostic (filter (\<lambda>k. k \<in> fst ` set acc) (map fst rest))\<rparr>"
      and m: "map_of acc' = map_of rest ++ map_of acc"
      and k: "fst ` set acc' = fst ` set acc \<union> fst ` set rest"
      and dd: "distinct (map fst acc) \<longrightarrow> distinct (map fst acc')"
      by blast
    obtain w where w: "map_of acc key = Some w"
      using True by (metis map_of_eq_None_iff not_Some_eq)
    have m': "map_of acc' = map_of (p # rest) ++ map_of acc"
    proof (rule ext)
      fix x show "map_of acc' x = (map_of (p # rest) ++ map_of acc) x"
        using m w p by (cases "map_of acc x") (auto simp: map_add_def)
    qed
    have k': "fst ` set acc' = fst ` set acc \<union> fst ` set (p # rest)" using k True p by auto
    have run': "extendFields result (p # rest) s =
           s\<lparr>mem := (mem s)\<lparr>schemas := xs @ [acc']\<rparr>,
             console := console s @
               map duplicateKeyDiagnostic (filter (\<lambda>k. k \<in> fst ` set acc) (map fst (p # rest)))\<rparr>"
      using run step True p by (simp add: log_error_def duplicateKeyDiagnostic_def)
    show ?thesis using run' m' k' dd by blast
  next
    case False
    let ?acc1 = "assignProperty key d acc"
    let ?s1 = "set_schema result ?acc1 s"
    have step: "extendField result key d s = ?s1" using False at by (simp add: extendField_def)
    have s1: "schemas (mem ?s1) = xs @ [?acc1]"
      using Cons.prems by (simp add: set_schema_def)
    have keys1: "fst ` set ?acc1 = insert key (fst ` set acc)" by (rule keys_assignProperty)
    from Cons.IH[OF s1 Cons.prems(2) dr] obtain acc' where
      run: "extendFields result rest ?s1 =
           ?s1\<lparr>mem := (mem ?s1)\<lparr>schemas := xs @ [acc']\<rparr>,
             console := console ?s1 @
               map duplicateKeyDiagnostic (filter (\<lambda>k. k \<in> fst ` set ?acc1) (map fst rest))\<rparr>"
      and m: "map_of acc' = map_of rest ++ map_of ?acc1"
      and k: "fst ` set acc' = fst ` set ?acc1 \<union> fst ` set rest"
      and dd: "distinct (map fst ?acc1) \<longrightarrow> distinct (map fst acc')"
      by blast
    have none: "map_of acc key = None" using False by (simp add: map_of_eq_None_iff)
    have m': "map_of acc' = map_of (p # rest) ++ map_of acc"
    proof (rule ext)
      fix x show "map_of acc' x = (map_of (p # rest) ++ map_of acc) x"
        using m none p by (cases "map_of acc x") (auto simp: map_add_def map_of_assignProperty)
    qed
    have k': "fst ` set acc' = fst ` set acc \<union> fst ` set (p # rest)" using k keys1 p by auto
    have f: "filter (\<lambda>k. k \<in> fst ` set ?acc1) (map fst rest) =
             filter (\<lambda>k. k \<in> fst ` set acc) (map fst rest)"
      unfolding keys1 using notin by (intro filter_cong) auto
    have run': "extendFields result (p # rest) s =
           s\<lparr>mem := (mem s)\<lparr>schemas := xs @ [acc']\<rparr>,
             console := console s @
               map duplicateKeyDiagnostic (filter (\<lambda>k. k \<in> fst ` set acc) (map fst (p # rest)))\<rparr>"
      using run step False p f by (simp add: set_schema_def)
    have dd': "distinct (map fst acc) \<longrightarrow> distinct (map fst acc')"
      using dd by (simp add: distinct_assignProperty)
    show ?thesis using run' m' k' dd' by blast
  qed
qed

text \<open>
  Claim C3. For schemas \<open>base\<close> and \<open>newOne\<close> (objects, so the keys of each are
  distinct; neither has a field named \<open>hasOwnProperty\<close>, so the ownership test of the
  loop is the inherited one), \<^verbatim>\<open>extendSchema(base, newOne)\<close> returns a mapping that
  holds every entry of \<open>base\<close> and every entry of \<open>newOne\<close> whose key is not in
  \<open>base\<close>, and no other: a key of \<open>base\<close> keeps the descriptor of \<open>base\<close>, any
  other key has the descriptor of \<open>newOne\<close>. For each key of \<open>newOne\<close> that is in
  \<open>base\<close> the entry of \<open>newOne\<close> is dropped and one diagnostic is logged. So
  \<^verbatim>\<open>extendSchema({a: X}, {b: Y})\<close> is \<^verbatim>\<open>{a: X, b: Y}\<close> and
  \<^verbatim>\<open>extendSchema({a: X}, {a: Z})\<close> is \<^verbatim>\<open>{a: X}\<close>, with the conflict on \<open>a\<close>
  reported.
\<close>

theorem extendSchema_base_wins:
  assumes "newOne < length (schemas (mem s))"
    and "distinct (map fst (schema_at s base))"
    and "distinct (map fst (schema_at s newOne))"
    and "''hasOwnProperty'' \<notin> fst ` set (schema_at s base) \<union> fst ` set (schema_at s newOne)"
  shows "map_of (schema_at (snd (extendSchema base newOne s)) (fst (extendSchema base newOne s))) key =
           (case map_of (schema_at s base) key of
              Some d \<Rightarrow> Some d
            | None \<Rightarrow> map_of (schema_at s newOne) key)
       \<and> fst ` set (schema_at (snd (extendSchema base newOne s)) (fst (extendSchema base newOne s))) =
           fst ` set (schema_at s base) \<union> fst ` set (schema_at s newOne)
       \<and> distinct (map fst (schema_at (snd (extendSchema base newOne s))
                               (fst (extendSchema base newOne s))))
       \<and> console (snd (extendSchema base newOne s)) =
           console s @ map duplicateKeyDiagnostic
             (filter (\<lambda>k. k \<in> fst ` set (schema_at s base)) (map fst (schema_at s newOne)))"
proof -
  let ?copy = "objectAssign [] (schema_at s base)"
  let ?s1 = "s\<lparr>mem := (mem s)\<lparr>schemas := schemas (mem s) @ [?copy]\<rparr>\<rparr>"
  have new: "schema_at ?s1 newOne = schema_at s newOne"
    using assms(1) by (simp add: schema_at_def nth_append)
  have start: "schemas (mem ?s1) = schemas (mem s) @ [?copy]" by simp
  have run: "extendSchema base newOne s =
      (length (schemas (mem s)), extendFields (length (schemas (mem s))) (schema_at s newOne) ?s1)"
    using new by (simp add: extendSchema_def Let_def)
  have copy_map: "map_of ?copy = map_of (schema_at s base)"
    using map_of_objectAssign[OF assms(2), of "[]"] by simp
  have copy_keys: "fst ` set ?copy = fst ` set (schema_at s base)"
    using keys_objectAssign[of "[]" "schema_at s base"] by simp
  have copy_distinct: "distinct (map fst ?copy)"
    by (rule distinct_objectAssign) simp
  from extendFields_mapping[OF start refl assms(3)] obtain acc' where
    loop: "extendFields (length (schemas (mem s))) (schema_at s newOne) ?s1 =
           ?s1\<lparr>mem := (mem ?s1)\<lparr>schemas := schemas (mem s) @ [acc']\<rparr>,
             console := console ?s1 @
               map duplicateKeyDiagnostic
                 (filter (\<lambda>k. k \<in> fst ` set ?copy) (map fst (schema_at s newOne)))\<rparr>"
    and m: "map_of acc' = map_of (schema_at s newOne) ++ map_of ?copy"
    and k: "fst ` set acc' = fst ` set ?copy \<union> fst ` set (schema_at s newOne)"
    and d: "distinct (map fst ?copy) \<longrightarrow> distinct (map fst acc')"
    by blast
  have res: "schema_at (snd (extendSchema base newOne s)) (fst (extendSchema base newOne s)) = acc'"
    unfolding run loop by (simp add: schema_at_def)
  have con: "console (snd (extendSchema base newOne s)) =
           console s @ map duplicateKeyDiagnostic
             (filter (\<lambda>k. k \<in> fst ` set (schema_at s base)) (map fst (schema_at s newOne)))"
    unfolding run loop copy_keys by simp
  have mk: "map_of acc' key =
           (case map_of (schema_at s base) key of
              Some d \<Rightarrow> Some d
            | None \<Rightarrow> map_of (schema_at s newOne) key)"
    unfolding m copy_map by (simp add: map_add_def)
  show ?thesis unfolding res using mk k copy_keys d copy_distinct con by simp
qed

theorem extendSchema_base_wins_witness:
  "1 < length (schemas (mem extendState)) \<and> 2 < length (schemas (mem extendState))
   \<and> map fst (schema_at extendState 0) = [''a''] \<and> map fst (schema_at extendState 1) = [''b'']
   \<and> map fst (schema_at extendState 2) = [''a'']
   \<and> schema_at (snd (extendSchema 0 1 extendState)) (fst (extendSchema 0 1 extendState)) =
       [(''a'', descriptorOf TypeInteger), (''b'', descriptorOf TypeString)]
   \<and> console (snd (extendSchema 0 1 extendState)) = []
   \<and> schema_at (snd (extendSchema 0 2 extendState)) (fst (extendSchema 0 2 extendState)) =
       [(''a'', descriptorOf TypeInteger)]
   \<and> console (snd (extendSchema 0 2 extendState)) = [duplicateKeyDiagnostic ''a'']
   \<and> map fst (schema_at (snd (extendSchema 0 1 indexedState)) (fst (extendSchema 0 1 indexedState))) =
       [''1'', ''b'']"
proof -
  note defs = extendState_def indexedState_def schema_at_def extendSchema_def extendField_def
    objectAssign_def assignProperty_def indexOf_def arrayIndex_def isDigit_def set_schema_def
    log_error_def duplicateKeyDiagnostic_def Let_def
  have l1: "1 < length (schemas (mem extendState))" by (simp add: extendState_def)
  have l2: "2 < length (schemas (mem extendState))" by (simp add: extendState_def)
  have k0: "map fst (schema_at extendState 0) = [''a'']"
    and k1: "map fst (schema_at extendState 1) = [''b'']"
    and k2: "map fst (schema_at extendState 2) = [''a'']"
    by (simp_all add: extendState_def schema_at_def)
  have d0: "distinct (map fst (schema_at extendState 0))" unfolding k0 by simp
  have d1: "distinct (map fst (schema_at extendState 1))" unfolding k1 by simp
  have d2: "distinct (map fst (schema_at extendState 2))" unfolding k2 by simp
  have n1: "''hasOwnProperty'' \<notin> fst ` set (schema_at extendState 0) \<union> fst ` set (schema_at extendState 1)"
    by (simp add: extendState_def schema_at_def)
  have n2: "''hasOwnProperty'' \<notin> fst ` set (schema_at extendState 0) \<union> fst ` set (schema_at extendState 2)"
    by (simp add: extendState_def schema_at_def)
  have c1: "console (snd (extendSchema 0 1 extendState)) = []"
    using extendSchema_base_wins[OF l1 d0 d1 n1, of "''a''"]
    by (simp add: extendState_def schema_at_def)
  have c2: "console (snd (extendSchema 0 2 extendState)) = [duplicateKeyDiagnostic ''a'']"
    using extendSchema_base_wins[OF l2 d0 d2 n2, of "''a''"]
    by (simp add: extendState_def schema_at_def)
  have r1: "schema_at (snd (extendSchema 0 1 extendState)) (fst (extendSchema 0 1 extendState)) =
       [(''a'', descriptorOf TypeInteger), (''b'', descriptorOf TypeString)]"
    by (simp add: defs)
  have r2: "schema_at (snd (extendSchema 0 2 extendState)) (fst (extendSchema 0 2 extendState)) =
       [(''a'', descriptorOf TypeInteger)]"
    by (simp add: defs)
  have r3: "map fst (schema_at (snd (extendSchema 0 1 indexedState))
                       (fst (extendSchema 0 1 indexedState))) = [''1'', ''b'']"
    by (simp add: defs)
  show ?thesis using l1 l2 k0 k1 k2 c1 c2 r1 r2 r3 by simp
qed

text \<open>
  Claim C10. \<^verbatim>\<open>extendSchema(base, newOne)\<close> returns the address of a newly allocated
  object (one that no reference of the state before the call can have) and changes
  nothing else: the state after the call is the state before it plus that one object at
  the end of the store and the diagnostics logged. Every schema object that existed
  before, the two arguments and every cached schema among them, is as it was, and so are
  both caches.
\<close>

theorem extendSchema_allocates_fresh:
  "\<exists>result msgs. extendSchema base newOne s =
     (length (schemas (mem s)),
      s\<lparr>mem := (mem s)\<lparr>schemas := schemas (mem s) @ [result]\<rparr>, console := console s @ msgs\<rparr>)"
proof -
  let ?s1 = "s\<lparr>mem := (mem s)\<lparr>schemas :=
              schemas (mem s) @ [objectAssign [] (schema_at s base)]\<rparr>\<rparr>"
  have "schemas (mem ?s1) = schemas (mem s) @ [objectAssign [] (schema_at s base)]" by simp
  from extendFields_frame[OF this refl, of "schema_at ?s1 newOne"]
  obtain acc' msgs where
    "extendFields (length (schemas (mem s))) (schema_at ?s1 newOne) ?s1 =
       ?s1\<lparr>mem := (mem ?s1)\<lparr>schemas := schemas (mem s) @ [acc']\<rparr>, console := console ?s1 @ msgs\<rparr>"
    by blast
  then have "extendSchema base newOne s =
     (length (schemas (mem s)),
      s\<lparr>mem := (mem s)\<lparr>schemas := schemas (mem s) @ [acc']\<rparr>, console := console s @ msgs\<rparr>)"
    by (simp add: extendSchema_def Let_def)
  then show ?thesis by blast
qed

theorem extendSchema_allocates_fresh_witness:
  "fst (extendSchema 0 1 extendState) = 3
   \<and> map_of (globalSchemaCache (mem extendState)) ''Parent'' = Some 0
   \<and> globalSchemaCache (mem (snd (extendSchema 0 1 extendState))) = globalSchemaCache (mem extendState)
   \<and> schema_at (snd (extendSchema 0 1 extendState)) 0 = schema_at extendState 0
   \<and> schema_at (snd (extendSchema 0 1 extendState)) 1 = schema_at extendState 1
   \<and> take 3 (schemas (mem (snd (extendSchema 0 1 extendState)))) = schemas (mem extendState)"
proof -
  obtain result msgs where run: "extendSchema 0 1 extendState =
     (length (schemas (mem extendState)),
      extendState\<lparr>mem := (mem extendState)\<lparr>schemas := schemas (mem extendState) @ [result]\<rparr>,
                  console := console extendState @ msgs\<rparr>)"
    using extendSchema_allocates_fresh[of 0 1 extendState] by blast
  have len: "length (schemas (mem extendState)) = 3" by (simp add: extendState_def)
  have cache: "map_of (globalSchemaCache (mem extendState)) ''Parent'' = Some 0"
    by (simp add: extendState_def)
  show ?thesis unfolding run using len cache by (simp add: schema_at_def nth_append)
qed

section \<open>Serialization walks\<close>

lemma object_at_set_object:
  "m < length (objects (mem s)) \<Longrightarrow>
   object_at (set_object m ob s) r = (if r = m then ob else object_at s r)"
  by (simp add: object_at_def set_object_def)

lemma object_at_record_call [simp]: "object_at (record_call ev s) r = object_at s r"
  by (simp add: object_at_def record_call_def)

lemma objGet_objSet: "objGet (objSet ob k v) k' = (if k' = k then v else objGet ob k')"
  by (simp add: objGet_def objSet_def map_of_assignProperty)

lemma objHasOwnProperty_objSet:
  "objHasOwnProperty (objSet ob k v) k' = (k' = k \<or> objHasOwnProperty ob k')"
  by (auto simp: objHasOwnProperty_def objSet_def keys_assignProperty)

lemma serializeField_ok:
  assumes "objHasOwnProperty (object_at s obj) key"
    and "serialize d (objGet (object_at s obj) key) = Returned v"
  shows "serializeField obj key d mergeWith s =
     (None, set_object mergeWith (objSet (object_at s mergeWith) key v)
              (record_call (DescriptorCall key CallSerialize) s))"
  using assms by (simp add: serializeField_def)

lemma serializeFields_merges:
  assumes "mergeWith < length (objects (mem s))"
    and "distinct (map fst entries)"
    and "serializable s obj entries"
  shows "fst (serializeFields obj entries mergeWith s) = Returned ()
     \<and> (\<forall>(key, d) \<in> set entries.
           serialize d (objGet (object_at s obj) key) =
             Returned (objGet (object_at (snd (serializeFields obj entries mergeWith s)) mergeWith) key))
     \<and> (\<forall>key. key \<notin> fst ` set entries \<longrightarrow>
           map_of (props (object_at (snd (serializeFields obj entries mergeWith s)) mergeWith)) key =
           map_of (props (object_at s mergeWith)) key)
     \<and> className (object_at (snd (serializeFields obj entries mergeWith s)) mergeWith) =
         className (object_at s mergeWith)
     \<and> (\<forall>r. r \<noteq> mergeWith \<longrightarrow>
           object_at (snd (serializeFields obj entries mergeWith s)) r = object_at s r)
     \<and> length (objects (mem (snd (serializeFields obj entries mergeWith s)))) = length (objects (mem s))
     \<and> schemas (mem (snd (serializeFields obj entries mergeWith s))) = schemas (mem s)
     \<and> globalSchemaCache (mem (snd (serializeFields obj entries mergeWith s))) = globalSchemaCache (mem s)
     \<and> classnamesCache (mem (snd (serializeFields obj entries mergeWith s))) = classnamesCache (mem s)"
  using assms
proof (induction entries arbitrary: s)
  case Nil
  then show ?case by simp
next
  case (Cons p rest)
  obtain key d where p: "p = (key, d)" by (cases p)
  from Cons.prems(3) p obtain v where
    has: "objHasOwnProperty (object_at s obj) key"
    and ser: "serialize d (objGet (object_at s obj) key) = Returned v"
    by (auto simp: serializable_def)
  let ?s1 = "set_object mergeWith (objSet (object_at s mergeWith) key v)
              (record_call (DescriptorCall key CallSerialize) s)"
  have step: "serializeField obj key d mergeWith s = (None, ?s1)"
    by (rule serializeField_ok[OF has ser])
  have run: "serializeFields obj (p # rest) mergeWith s = serializeFields obj rest mergeWith ?s1"
    using step p by simp
  have len0: "mergeWith < length (objects (mem (record_call (DescriptorCall key CallSerialize) s)))"
    using Cons.prems(1) by (simp add: record_call_def)
  have at1: "object_at ?s1 r = (if r = mergeWith then objSet (object_at s mergeWith) key v else object_at s r)" for r
    using object_at_set_object[OF len0] by simp
  have len1: "mergeWith < length (objects (mem ?s1))"
    using Cons.prems(1) by (simp add: set_object_def record_call_def)
  have dr: "distinct (map fst rest)" and notin: "key \<notin> fst ` set rest"
    using Cons.prems(2) p by auto
  have get1: "objGet (object_at ?s1 obj) k = objGet (object_at s obj) k" if "k \<noteq> key" for k
    using that by (simp add: at1 objGet_objSet)
  have has1: "objHasOwnProperty (object_at s obj) k \<Longrightarrow> objHasOwnProperty (object_at ?s1 obj) k" for k
    by (auto simp: at1 objHasOwnProperty_objSet)
  have ser1: "serializable ?s1 obj rest"
    unfolding serializable_def
  proof (clarify)
    fix k dk assume in_rest: "(k, dk) \<in> set rest"
    then have ne: "k \<noteq> key" using notin by (auto simp: image_iff)
    from Cons.prems(3) in_rest have
      "objHasOwnProperty (object_at s obj) k \<and>
        (\<exists>v. serialize dk (objGet (object_at s obj) k) = Returned v)"
      by (auto simp: serializable_def)
    then show "objHasOwnProperty (object_at ?s1 obj) k \<and>
        (\<exists>v. serialize dk (objGet (object_at ?s1 obj) k) = Returned v)"
      using has1 get1[OF ne] by simp
  qed
  note IH = Cons.IH[OF len1 dr ser1]
  let ?s' = "snd (serializeFields obj rest mergeWith ?s1)"
  have c0: "fst (serializeFields obj rest mergeWith ?s1) = Returned ()" using IH by blast
  have c1: "\<forall>(k, dk) \<in> set rest. serialize dk (objGet (object_at ?s1 obj) k) =
             Returned (objGet (object_at ?s' mergeWith) k)" using IH by blast
  have c2: "\<forall>k. k \<notin> fst ` set rest \<longrightarrow>
           map_of (props (object_at ?s' mergeWith)) k = map_of (props (object_at ?s1 mergeWith)) k"
    using IH by blast
  have c3: "className (object_at ?s' mergeWith) = className (object_at ?s1 mergeWith)" using IH by blast
  have c4: "\<forall>r. r \<noteq> mergeWith \<longrightarrow> object_at ?s' r = object_at ?s1 r" using IH by blast
  have c5: "length (objects (mem ?s')) = length (objects (mem ?s1))" using IH by blast
  have c6: "schemas (mem ?s') = schemas (mem ?s1)"
    "globalSchemaCache (mem ?s') = globalSchemaCache (mem ?s1)"
    "classnamesCache (mem ?s') = classnamesCache (mem ?s1)" using IH by blast+
  have m1: "map_of (props (object_at ?s1 mergeWith)) k =
      (if k = key then Some v else map_of (props (object_at s mergeWith)) k)" for k
    unfolding at1 by (simp add: objSet_def map_of_assignProperty)
  have g1: "objGet (object_at ?s' mergeWith) key = v"
  proof -
    have "map_of (props (object_at ?s' mergeWith)) key = map_of (props (object_at ?s1 mergeWith)) key"
      using c2 notin by blast
    then show ?thesis by (simp add: objGet_def m1)
  qed
  have d1: "\<forall>(k, dk) \<in> set (p # rest). serialize dk (objGet (object_at s obj) k) =
             Returned (objGet (object_at ?s' mergeWith) k)"
  proof (clarify)
    fix k dk assume mem: "(k, dk) \<in> set (p # rest)"
    show "serialize dk (objGet (object_at s obj) k) = Returned (objGet (object_at ?s' mergeWith) k)"
    proof (cases "(k, dk) = (key, d)")
      case True
      then show ?thesis using ser g1 by simp
    next
      case False
      with mem p have in_rest: "(k, dk) \<in> set rest" by auto
      then have ne: "k \<noteq> key" using notin by (auto simp: image_iff)
      from c1 in_rest have "serialize dk (objGet (object_at ?s1 obj) k) =
             Returned (objGet (object_at ?s' mergeWith) k)" by blast
      then show ?thesis using get1[OF ne] by simp
    qed
  qed
  have d2: "\<forall>k. k \<notin> fst ` set (p # rest) \<longrightarrow>
           map_of (props (object_at ?s' mergeWith)) k = map_of (props (object_at s mergeWith)) k"
    using c2 m1 p by auto
  have d3: "className (object_at ?s' mergeWith) = className (object_at s mergeWith)"
    using c3 unfolding at1 by (simp add: objSet_def)
  have d4: "\<forall>r. r \<noteq> mergeWith \<longrightarrow> object_at ?s' r = object_at s r"
    using c4 by (simp add: at1)
  have d5: "length (objects (mem ?s')) = length (objects (mem s))"
    using c5 by (simp add: set_object_def record_call_def)
  have d6: "schemas (mem ?s') = schemas (mem s)"
    "globalSchemaCache (mem ?s') = globalSchemaCache (mem s)"
    "classnamesCache (mem ?s') = classnamesCache (mem s)"
    using c6 by (simp_all add: set_object_def record_call_def)
  show ?case unfolding run using c0 d1 d2 d3 d4 d5 d6 by blast
qed

text \<open>
  Claim C4. Let the object own a property for every key of the schema, and let the
  \<^verbatim>\<open>serialize\<close> of every field's descriptor return on the object's value for that
  field. Then \<^verbatim>\<open>serializeSchema(obj, schema, mergeWith)\<close> returns \<^verbatim>\<open>mergeWith\<close>
  itself (the same address), in which every key of the schema is bound to what its
  descriptor's \<^verbatim>\<open>serialize\<close> returned for the object's field value, and every entry
  under a key that is not in the schema is as it was before the call; no other object,
  no schema and no cache is touched. This holds also when \<^verbatim>\<open>mergeWith\<close> is the object
  that is serialized.
\<close>

theorem serializeSchema_merges:
  assumes "mergeWith < length (objects (mem s))"
    and "distinct (map fst (schema_at s schema))"
    and "\<forall>(key, d) \<in> set (schema_at s schema). objHasOwnProperty (object_at s obj) key"
    and "\<forall>(key, d) \<in> set (schema_at s schema).
           \<exists>v. serialize d (objGet (object_at s obj) key) = Returned v"
  shows "fst (serializeSchema obj schema (Some mergeWith) s) = Returned mergeWith
     \<and> (\<forall>(key, d) \<in> set (schema_at s schema).
           serialize d (objGet (object_at s obj) key) =
             Returned (objGet (object_at (snd (serializeSchema obj schema (Some mergeWith) s))
                                 mergeWith) key))
     \<and> (\<forall>key. key \<notin> fst ` set (schema_at s schema) \<longrightarrow>
           map_of (props (object_at (snd (serializeSchema obj schema (Some mergeWith) s)) mergeWith)) key =
           map_of (props (object_at s mergeWith)) key)
     \<and> (\<forall>r. r \<noteq> mergeWith \<longrightarrow>
           object_at (snd (serializeSchema obj schema (Some mergeWith) s)) r = object_at s r)
     \<and> schemas (mem (snd (serializeSchema obj schema (Some mergeWith) s))) = schemas (mem s)
     \<and> globalSchemaCache (mem (snd (serializeSchema obj schema (Some mergeWith) s))) =
         globalSchemaCache (mem s)"
proof -
  have able: "serializable s obj (schema_at s schema)"
    using assms(3,4) unfolding serializable_def by blast
  note loop = serializeFields_merges[OF assms(1,2) able]
  have ok: "fst (serializeFields obj (schema_at s schema) mergeWith s) = Returned ()"
    using loop by blast
  have run: "serializeSchema obj schema (Some mergeWith) s =
      (Returned mergeWith, snd (serializeFields obj (schema_at s schema) mergeWith s))"
    using ok by (cases "serializeFields obj (schema_at s schema) mergeWith s")
      (simp add: serializeSchema_def)
  show ?thesis unfolding run using loop by simp
qed

theorem serializeSchema_merges_witness:
  "1 < length (objects (mem savedGoalState))
   \<and> distinct (map fst (schema_at savedGoalState 0))
   \<and> map fst (schema_at savedGoalState 0) = [''level'', ''reward'']
   \<and> objHasOwnProperty (object_at savedGoalState 0) ''level''
   \<and> objHasOwnProperty (object_at savedGoalState 0) ''reward''
   \<and> serialize (descriptorOf TypePositiveInteger) (objGet (object_at savedGoalState 0) ''level'') =
       Returned (JNum 3)
   \<and> serialize (descriptorOf (TypeEnum [''none'', ''belt'']))
         (objGet (object_at savedGoalState 0) ''reward'') = Returned (JStr ''belt'')
   \<and> fst (serializeSchema 0 0 (Some 1) savedGoalState) = Returned 1
   \<and> props (object_at (snd (serializeSchema 0 0 (Some 1) savedGoalState)) 1) =
       [(''uid'', JNum 7), (''level'', JNum 3), (''reward'', JStr ''belt'')]
   \<and> object_at (snd (serializeSchema 0 0 (Some 1) savedGoalState)) 0 =
       object_at savedGoalState 0"
proof -
  note defs = savedGoalState_def goalSchema_def schema_at_def object_at_def descriptorOf_def
    objHasOwnProperty_def objGet_def objSet_def assignProperty_def indexOf_def arrayIndex_def
    isDigit_def
  have h1: "1 < length (objects (mem savedGoalState))" by (simp add: defs)
  have h2: "distinct (map fst (schema_at savedGoalState 0))" by (simp add: defs)
  have h3: "\<forall>(key, d) \<in> set (schema_at savedGoalState 0).
         objHasOwnProperty (object_at savedGoalState 0) key"
    by (simp add: defs)
  have h4: "\<forall>(key, d) \<in> set (schema_at savedGoalState 0).
         \<exists>v. serialize d (objGet (object_at savedGoalState 0) key) = Returned v"
    by (simp add: defs)
  from serializeSchema_merges[OF h1 h2 h3 h4]
  have ret: "fst (serializeSchema 0 0 (Some 1) savedGoalState) = Returned 1"
    and frame: "\<forall>r. r \<noteq> 1 \<longrightarrow>
           object_at (snd (serializeSchema 0 0 (Some 1) savedGoalState)) r = object_at savedGoalState r"
    by blast+
  have same: "object_at (snd (serializeSchema 0 0 (Some 1) savedGoalState)) 0 =
       object_at savedGoalState 0"
    using frame by simp
  have merged: "props (object_at (snd (serializeSchema 0 0 (Some 1) savedGoalState)) 1) =
       [(''uid'', JNum 7), (''level'', JNum 3), (''reward'', JStr ''belt'')]"
    by (simp add: serializeSchema_def serializeField_def set_object_def record_call_def defs)
  have keys: "map fst (schema_at savedGoalState 0) = [''level'', ''reward'']"
    by (simp add: defs)
  have own: "objHasOwnProperty (object_at savedGoalState 0) ''level''"
    "objHasOwnProperty (object_at savedGoalState 0) ''reward''"
    by (simp_all add: defs)
  have vals: "serialize (descriptorOf TypePositiveInteger)
        (objGet (object_at savedGoalState 0) ''level'') = Returned (JNum 3)"
    "serialize (descriptorOf (TypeEnum [''none'', ''belt'']))
        (objGet (object_at savedGoalState 0) ''reward'') = Returned (JStr ''belt'')"
    by (simp_all add: defs)
  show ?thesis using h1 h2 keys own vals ret merged same by blast
qed

section \<open>Deserialization walks\<close>

lemma hasOwnProperty_returns:
  "hasOwnProperty data key = Returned b \<Longrightarrow> \<exists>b'. hasOwnProperty data key' = Returned b'"
  by (cases data) (auto split: if_splits)

text \<open>What one round of the loop can do.\<close>

lemma deserializeField_step:
  assumes "hasOwnProperty data key = Returned b"
  shows "\<exists>evs. calls (snd (deserializeField obj key d data s)) = calls s @ evs
          \<and> list_all (callOn key) evs
          \<and> (case fst (deserializeField obj key d data s) of
                None \<Rightarrow> True
              | Some out \<Rightarrow> \<exists>e. out = Returned e \<and> truthy e)"
proof (cases b)
  case False
  with assms show ?thesis by (simp add: deserializeField_def log_error_def)
next
  case True
  show ?thesis
  proof (cases "\<not> allowNull d \<and> (getProperty data key = JNull \<or> getProperty data key = JUndefined)")
    case nullish: True
    have "calls (snd (deserializeField obj key d data s)) = calls s @ [DescriptorCall key CallAllowNull]"
      using assms True nullish by (auto simp: deserializeField_def log_error_def record_call_def Let_def)
    moreover have "\<exists>e. fst (deserializeField obj key d data s) = Some (Returned e) \<and> truthy e"
      using assms True nullish by (auto simp: deserializeField_def log_error_def record_call_def Let_def)
    ultimately show ?thesis by (auto split: option.splits)
  next
    case present: False
    obtain ob errorStatus where r: "deserializeWithVerify d (getProperty data key)
        (object_at (record_call (DescriptorCall key CallAllowNull) s) obj) key
        (objGet (object_at (record_call (DescriptorCall key CallAllowNull) s) obj) ''root'') = (ob, errorStatus)"
      by (cases "deserializeWithVerify d (getProperty data key)
        (object_at (record_call (DescriptorCall key CallAllowNull) s) obj) key
        (objGet (object_at (record_call (DescriptorCall key CallAllowNull) s) obj) ''root'')")
    have "calls (snd (deserializeField obj key d data s)) =
        calls s @ [DescriptorCall key CallAllowNull, DescriptorCall key CallDeserializeWithVerify]"
      using assms True present r
      by (auto simp: deserializeField_def log_error_def record_call_def set_object_def Let_def)
    moreover have "case fst (deserializeField obj key d data s) of
                None \<Rightarrow> True | Some out \<Rightarrow> \<exists>e. out = Returned e \<and> truthy e"
      using assms True present r
      by (auto simp: deserializeField_def log_error_def record_call_def set_object_def Let_def
          isError_def split: option.splits)
    ultimately show ?thesis by simp
  qed
qed


lemma deserializeField_nullish:
  assumes "hasOwnProperty data key = Returned True" and "\<not> allowNull d"
    and "getProperty data key = JNull \<or> getProperty data key = JUndefined"
  shows "deserializeField obj key d data s =
     (Some (Returned (JStr (''Non-nullable entry is null: '' @ key @ '' of class '' @
                            className (object_at s obj)))),
      log_error ''serialization'' [''Data'', ''has null value for'', key, ''(schema:'', '')'']
        (record_call (DescriptorCall key CallAllowNull) s))"
  using assms by (auto simp: deserializeField_def Let_def object_at_def record_call_def)

lemma deserializeField_missing:
  assumes "hasOwnProperty data key = Returned False"
  shows "deserializeField obj key d data s =
     (Some (Returned (JStr (''Missing key in schema: '' @ key @ '' of class '' @
                            className (object_at s obj)))),
      log_error ''serialization'' [''Data'', ''does not contain'', key, ''(schema:'', '')''] s)"
  using assms by (simp add: deserializeField_def)

lemma deserializeFields_rejects:
  assumes "(key, d) \<in> set sch" and "distinct (map fst sch)"
    and "hasOwnProperty data key' = Returned b'"
    and "hasOwnProperty data key = Returned False \<or>
         getProperty data key = JNull \<or> getProperty data key = JUndefined"
    and "\<not> allowNull d"
  shows "\<exists>e evs. fst (deserializeFields obj sch data s) = Returned e \<and> truthy e
          \<and> calls (snd (deserializeFields obj sch data s)) = calls s @ evs
          \<and> DescriptorCall key CallDeserializeWithVerify \<notin> set evs"
  using assms(1,2)
proof (induction sch arbitrary: s)
  case Nil
  then show ?case by simp
next
  case (Cons p rest)
  obtain k dk where p: "p = (k, dk)" by (cases p)
  obtain bk where hk: "hasOwnProperty data k = Returned bk"
    using hasOwnProperty_returns[OF assms(3)] by blast
  obtain out s1 where step: "deserializeField obj k dk data s = (out, s1)"
    by (cases "deserializeField obj k dk data s")
  from deserializeField_step[OF hk, of obj dk s] step obtain e1 where
    e1: "calls s1 = calls s @ e1" "list_all (callOn k) e1"
    and o1: "case out of None \<Rightarrow> True | Some out \<Rightarrow> \<exists>e. out = Returned e \<and> truthy e"
    by auto
  show ?case
  proof (cases "k = key")
    case True
    then have dk: "dk = d" using Cons.prems p by (auto simp: image_iff)
    obtain bkey where hkey: "hasOwnProperty data key = Returned bkey"
      using hasOwnProperty_returns[OF assms(3)] by blast
    have "\<exists>e. fst (deserializeField obj key d data s) = Some (Returned e) \<and> truthy e
           \<and> (calls (snd (deserializeField obj key d data s)) = calls s @ [DescriptorCall key CallAllowNull]
              \<or> calls (snd (deserializeField obj key d data s)) = calls s @ [])"
    proof (cases bkey)
      case False
      with hkey show ?thesis by (simp add: deserializeField_missing log_error_def)
    next
      case True
      with hkey assms(4,5) show ?thesis
        by (auto simp: deserializeField_nullish log_error_def record_call_def)
    qed
    then obtain e evs where "fst (deserializeField obj key d data s) = Some (Returned e)" "truthy e"
      "calls (snd (deserializeField obj key d data s)) = calls s @ evs"
      "DescriptorCall key CallDeserializeWithVerify \<notin> set evs"
      by auto
    then show ?thesis using p True dk by (auto split: prod.splits)
  next
    case False
    have ev1: "DescriptorCall key CallDeserializeWithVerify \<notin> set e1"
    proof
      assume "DescriptorCall key CallDeserializeWithVerify \<in> set e1"
      with e1(2) have "callOn k (DescriptorCall key CallDeserializeWithVerify)"
        unfolding list_all_iff by blast
      with False show False by simp
    qed
    show ?thesis
    proof (cases out)
      case (Some o')
      with o1 obtain e where "o' = Returned e" "truthy e" by auto
      with Some step e1 ev1 p show ?thesis by auto
    next
      case None
      have "(key, d) \<in> set rest" "distinct (map fst rest)" using Cons.prems p False by auto
      from Cons.IH[OF this, of s1] obtain e evs where
        "fst (deserializeFields obj rest data s1) = Returned e" "truthy e"
        "calls (snd (deserializeFields obj rest data s1)) = calls s1 @ evs"
        "DescriptorCall key CallDeserializeWithVerify \<notin> set evs"
        by blast
      then have "fst (deserializeFields obj (p # rest) data s) = Returned e \<and> truthy e
          \<and> calls (snd (deserializeFields obj (p # rest) data s)) = calls s @ (e1 @ evs)
          \<and> DescriptorCall key CallDeserializeWithVerify \<notin> set (e1 @ evs)"
        using None step p e1 ev1 by simp
      then show ?thesis by blast
    qed
  qed
qed

text \<open>A walk that returned undefined went through all its fields.\<close>

lemma deserializeFields_append:
  assumes "deserializeFields obj pre data s = (Returned JUndefined, s1)"
    and "hasOwnProperty data key' = Returned b'"
  shows "deserializeFields obj (pre @ rest) data s = deserializeFields obj rest data s1"
  using assms(1)
proof (induction pre arbitrary: s)
  case Nil
  then show ?case by simp
next
  case (Cons p pre)
  obtain k dk where p: "p = (k, dk)" by (cases p)
  obtain bk where hk: "hasOwnProperty data k = Returned bk"
    using hasOwnProperty_returns[OF assms(2)] by blast
  obtain out s' where step: "deserializeField obj k dk data s = (out, s')"
    by (cases "deserializeField obj k dk data s")
  from deserializeField_step[OF hk, of obj dk s] step
  have o1: "case out of None \<Rightarrow> True | Some out \<Rightarrow> \<exists>e. out = Returned e \<and> truthy e"
    by auto
  show ?case
  proof (cases out)
    case None
    with Cons step p show ?thesis by simp
  next
    case (Some o')
    with o1 obtain e where "o' = Returned e" "truthy e" by auto
    with Some step p Cons.prems have False by auto
    then show ?thesis ..
  qed
qed

lemma object_at_log_error [simp]: "object_at (log_error logger parts s) r = object_at s r"
  by (simp add: object_at_def log_error_def)

text \<open>A field that passes both tests is handed to its descriptor; the round goes on to
  the next field when the descriptor reports no error and returns the error otherwise.\<close>

lemma deserializeField_passes:
  assumes "hasOwnProperty data key = Returned True"
    and "\<not> (\<not> allowNull d \<and> (getProperty data key = JNull \<or> getProperty data key = JUndefined))"
    and "deserializeWithVerify d (getProperty data key) (object_at s obj) key
           (objGet (object_at s obj) ''root'') = (ob, errorStatus)"
    and "\<not> isError errorStatus"
  shows "deserializeField obj key d data s =
     (None, set_object obj ob
              (record_call (DescriptorCall key CallDeserializeWithVerify)
                 (record_call (DescriptorCall key CallAllowNull) s)))"
  using assms by (auto simp: deserializeField_def Let_def)

lemma deserializeField_fails:
  assumes "hasOwnProperty data key = Returned True"
    and "\<not> (\<not> allowNull d \<and> (getProperty data key = JNull \<or> getProperty data key = JUndefined))"
    and "deserializeWithVerify d (getProperty data key) (object_at s obj) key
           (objGet (object_at s obj) ''root'') = (ob, Some e)"
    and "e \<noteq> []"
  shows "\<exists>parts. deserializeField obj key d data s =
     (Some (Returned (JStr e)),
      log_error ''serialization'' parts
        (set_object obj ob
           (record_call (DescriptorCall key CallDeserializeWithVerify)
              (record_call (DescriptorCall key CallAllowNull) s))))"
  using assms by (auto simp: deserializeField_def Let_def)

text \<open>A walk over fields that the payload has, that pass the null test and whose
  descriptors report no error goes through all of them.\<close>

lemma deserializeFields_accepts:
  assumes "\<forall>(k, dk) \<in> set pre.
             hasOwnProperty data k = Returned True
           \<and> \<not> (\<not> allowNull dk \<and> (getProperty data k = JNull \<or> getProperty data k = JUndefined))
           \<and> (\<forall>ob root. \<not> isError (snd (deserializeWithVerify dk (getProperty data k) ob k root)))"
  shows "\<exists>s1. deserializeFields obj pre data s = (Returned JUndefined, s1)"
  using assms
proof (induction pre arbitrary: s)
  case Nil
  show ?case by simp
next
  case (Cons p pre)
  obtain k dk where p: "p = (k, dk)" by (cases p)
  obtain ob st where r: "deserializeWithVerify dk (getProperty data k) (object_at s obj) k
      (objGet (object_at s obj) ''root'') = (ob, st)"
    by (cases "deserializeWithVerify dk (getProperty data k) (object_at s obj) k
      (objGet (object_at s obj) ''root'')")
  have h: "hasOwnProperty data k = Returned True"
    and n: "\<not> (\<not> allowNull dk \<and> (getProperty data k = JNull \<or> getProperty data k = JUndefined))"
    and ok: "\<not> isError (snd (deserializeWithVerify dk (getProperty data k) (object_at s obj) k
      (objGet (object_at s obj) ''root'')))"
    using Cons.prems p by auto
  from ok r have "\<not> isError st" by simp
  note step = deserializeField_passes[OF h n r this]
  have rest: "\<forall>(k, dk) \<in> set pre.
             hasOwnProperty data k = Returned True
           \<and> \<not> (\<not> allowNull dk \<and> (getProperty data k = JNull \<or> getProperty data k = JUndefined))
           \<and> (\<forall>ob root. \<not> isError (snd (deserializeWithVerify dk (getProperty data k) ob k root)))"
    using Cons.prems by simp
  from Cons.IH[OF rest] show ?case using p step by simp
qed

text \<open>The walk reads and writes the objects of the store only: run on a store that holds
  another schema object it does the same.\<close>

lemma deserializeField_set_schema:
  "deserializeField obj key d data (set_schema r sch s) =
     (fst (deserializeField obj key d data s), set_schema r sch (snd (deserializeField obj key d data s)))"
  by (auto simp: deserializeField_def Let_def set_schema_def object_at_def record_call_def
      log_error_def set_object_def split: outcome.splits bool.splits prod.splits)

lemma deserializeFields_set_schema:
  "deserializeFields obj entries data (set_schema r sch s) =
     (fst (deserializeFields obj entries data s), set_schema r sch (snd (deserializeFields obj entries data s)))"
proof (induction entries arbitrary: s)
  case Nil
  show ?case by simp
next
  case (Cons p entries)
  obtain k dk where p: "p = (k, dk)" by (cases p)
  obtain out s1 where step: "deserializeField obj k dk data s = (out, s1)"
    by (cases "deserializeField obj k dk data s")
  then have step': "deserializeField obj k dk data (set_schema r sch s) = (out, set_schema r sch s1)"
    by (simp add: deserializeField_set_schema)
  show ?case using p step step' Cons.IH[of s1] by (cases out) simp_all
qed

text \<open>A field that is rejected for being absent or null is rejected whatever the
  \<^verbatim>\<open>deserializeWithVerify\<close> of its descriptor is.\<close>

lemma deserializeField_ignores:
  assumes "hasOwnProperty data key = Returned b" and "\<not> allowNull d"
    and "getProperty data key = JNull \<or> getProperty data key = JUndefined"
  shows "deserializeField obj key (d\<lparr>deserializeWithVerify := f\<rparr>) data s =
         deserializeField obj key d data s"
  using assms by (cases b) (auto simp: deserializeField_def Let_def)

lemma deserializeFields_ignores:
  assumes "hasOwnProperty data key = Returned b" and "\<not> allowNull d"
    and "getProperty data key = JNull \<or> getProperty data key = JUndefined"
  shows "deserializeFields obj (pre @ (key, d\<lparr>deserializeWithVerify := f\<rparr>) # post) data s =
         deserializeFields obj (pre @ (key, d) # post) data s"
proof (induction pre arbitrary: s)
  case Nil
  show ?case by (simp add: deserializeField_ignores[OF assms])
next
  case (Cons p pre)
  obtain k dk where p: "p = (k, dk)" by (cases p)
  show ?case using p Cons.IH by (simp split: prod.splits option.splits)
qed

text \<open>
  Claim C5, as stated, fails in two ways. The walk goes through the fields in order and
  returns at the first one it rejects: for the schema of the running example and the
  payload \<^verbatim>\<open>{reward: null}\<close>, which holds \<^verbatim>\<open>null\<close> under the non-nullable field
  \<open>reward\<close>, the description returned is the one for the field \<open>level\<close>, declared
  before it. And the test \<^verbatim>\<open>data.hasOwnProperty(key)\<close> calls whatever the payload
  holds under the name \<^verbatim>\<open>hasOwnProperty\<close>: for the payload
  \<^verbatim>\<open>{hasOwnProperty: 1, level: 3, reward: null}\<close> the call throws a TypeError and no
  description is returned.
\<close>

theorem deserializeSchema_null_field_counterexample:
  "schema_at goalState 0 =
     [(''level'', descriptorOf TypePositiveInteger),
      (''reward'', descriptorOf (TypeEnum [''none'', ''belt'']))]
   \<and> \<not> allowNull (descriptorOf (TypeEnum [''none'', ''belt'']))
   \<and> getProperty (JObj [(''reward'', JNull)]) ''reward'' = JNull
   \<and> fst (deserializeSchema 0 0 (JObj [(''reward'', JNull)]) JNull goalState) =
       Returned (JStr ''Missing key in schema: level of class Goal'')
   \<and> getProperty (JObj [(''hasOwnProperty'', JNum 1), (''level'', JNum 3), (''reward'', JNull)])
       ''reward'' = JNull
   \<and> fst (deserializeSchema 0 0
            (JObj [(''hasOwnProperty'', JNum 1), (''level'', JNum 3), (''reward'', JNull)])
            JNull goalState) = Thrown TypeError"
  by (simp add: deserializeSchema_def goalState_def goalSchema_def schema_at_def
      deserializeField_def descriptorOf_def object_at_def log_error_def)

text \<open>
  Claim C5, amended. Let \<^verbatim>\<open>deserializeSchema\<close> be called without an inherited error on
  a truthy payload on which \<^verbatim>\<open>hasOwnProperty\<close> can be called, let the schema declare
  the fields \<open>pre\<close>, then a field \<open>key\<close> whose descriptor \<open>d\<close> does not allow null,
  then the fields \<open>post\<close>, and let the payload hold \<^verbatim>\<open>null\<close> or \<^verbatim>\<open>undefined\<close> under
  \<open>key\<close> (or lack the key). Then the call returns an error description \<open>e\<close> and never
  calls \<^verbatim>\<open>deserializeWithVerify\<close> for \<open>key\<close>; the call does the same, whatever
  function the descriptor has for \<^verbatim>\<open>deserializeWithVerify\<close>. When the payload has every
  field of \<open>pre\<close>, none of them fails the null test and none of their descriptors
  reports an error, the description is the one for \<open>key\<close>: "Non-nullable entry is
  null: key of class C" when the payload has the key, "Missing key in schema: key of
  class C" when it has not.
\<close>

theorem deserializeSchema_rejects_null:
  assumes "\<not> truthy baseclassErrorResult" and "truthy data"
    and "schema_at s schema = pre @ (key, d) # post"
    and "distinct (map fst (schema_at s schema))"
    and "\<not> allowNull d"
    and "hasOwnProperty data key = Returned b"
    and "getProperty data key = JNull \<or> getProperty data key = JUndefined"
  shows "\<exists>e evs.
           fst (deserializeSchema obj schema data baseclassErrorResult s) = Returned e \<and> truthy e
         \<and> calls (snd (deserializeSchema obj schema data baseclassErrorResult s)) = calls s @ evs
         \<and> DescriptorCall key CallDeserializeWithVerify \<notin> set evs
         \<and> (\<forall>f. deserializeSchema obj schema data baseclassErrorResult
                   (set_schema schema (pre @ (key, d\<lparr>deserializeWithVerify := f\<rparr>) # post) s) =
                 (Returned e,
                  set_schema schema (pre @ (key, d\<lparr>deserializeWithVerify := f\<rparr>) # post)
                    (snd (deserializeSchema obj schema data baseclassErrorResult s))))
         \<and> ((\<forall>(k, dk) \<in> set pre.
                 hasOwnProperty data k = Returned True
               \<and> \<not> (\<not> allowNull dk \<and> (getProperty data k = JNull \<or> getProperty data k = JUndefined))
               \<and> (\<forall>ob root. \<not> isError (snd (deserializeWithVerify dk (getProperty data k) ob k root))))
             \<longrightarrow> e = JStr ((if b then ''Non-nullable entry is null: '' else ''Missing key in schema: '') @
                           key @ '' of class '' @
                           className (object_at (snd (deserializeSchema obj schema data
                                                        baseclassErrorResult s)) obj)))"
proof -
  let ?R = "deserializeSchema obj schema data baseclassErrorResult s"
  have run: "?R = deserializeFields obj (schema_at s schema) data s"
    using assms(1,2) by (simp add: deserializeSchema_def)
  have mem: "(key, d) \<in> set (schema_at s schema)" using assms(3) by simp
  have nul: "hasOwnProperty data key = Returned False \<or>
      getProperty data key = JNull \<or> getProperty data key = JUndefined"
    using assms(7) by blast
  from deserializeFields_rejects[OF mem assms(4) assms(6) nul assms(5), of obj s]
  obtain e evs where e: "fst ?R = Returned e" "truthy e"
    and evs: "calls (snd ?R) = calls s @ evs"
    "DescriptorCall key CallDeserializeWithVerify \<notin> set evs"
    unfolding run by blast
  have other: "deserializeSchema obj schema data baseclassErrorResult
                   (set_schema schema (pre @ (key, d\<lparr>deserializeWithVerify := f\<rparr>) # post) s) =
                 (Returned e,
                  set_schema schema (pre @ (key, d\<lparr>deserializeWithVerify := f\<rparr>) # post) (snd ?R))"
    for f
  proof -
    let ?sch = "pre @ (key, d\<lparr>deserializeWithVerify := f\<rparr>) # post"
    have same: "deserializeFields obj (schema_at (set_schema schema ?sch s) schema) data s =
        deserializeFields obj (schema_at s schema) data s"
    proof (cases "schema < length (schemas (mem s))")
      case True
      then have "schema_at (set_schema schema ?sch s) schema = ?sch"
        by (simp add: schema_at_def set_schema_def)
      then show ?thesis
        unfolding assms(3) by (simp add: deserializeFields_ignores[OF assms(6,5,7)])
    next
      case False
      then have "schema_at (set_schema schema ?sch s) schema = schema_at s schema"
        by (simp add: schema_at_def set_schema_def list_update_beyond)
      then show ?thesis by simp
    qed
    have "deserializeSchema obj schema data baseclassErrorResult (set_schema schema ?sch s) =
        deserializeFields obj (schema_at (set_schema schema ?sch s) schema) data
          (set_schema schema ?sch s)"
      using assms(1,2) by (simp add: deserializeSchema_def)
    also have "\<dots> = (fst (deserializeFields obj (schema_at s schema) data s),
        set_schema schema ?sch (snd (deserializeFields obj (schema_at s schema) data s)))"
      unfolding deserializeFields_set_schema same ..
    finally show ?thesis using e(1) unfolding run by simp
  qed
  have first: "e = JStr ((if b then ''Non-nullable entry is null: '' else ''Missing key in schema: '') @
                         key @ '' of class '' @ className (object_at (snd ?R) obj))"
    if pre: "\<forall>(k, dk) \<in> set pre.
                 hasOwnProperty data k = Returned True
               \<and> \<not> (\<not> allowNull dk \<and> (getProperty data k = JNull \<or> getProperty data k = JUndefined))
               \<and> (\<forall>ob root. \<not> isError (snd (deserializeWithVerify dk (getProperty data k) ob k root)))"
  proof -
    from deserializeFields_accepts[OF pre, of obj s] obtain s1 where
      s1: "deserializeFields obj pre data s = (Returned JUndefined, s1)" by blast
    have at: "?R = deserializeFields obj ((key, d) # post) data s1"
      unfolding run assms(3) by (rule deserializeFields_append[OF s1 assms(6)])
    have "fst ?R = Returned (JStr ((if b then ''Non-nullable entry is null: ''
                                    else ''Missing key in schema: '') @
                         key @ '' of class '' @ className (object_at (snd ?R) obj)))"
    proof (cases b)
      case True
      with assms(6) have h: "hasOwnProperty data key = Returned True" by simp
      show ?thesis unfolding at using True
        by (simp add: deserializeField_nullish[OF h assms(5,7)])
    next
      case False
      with assms(6) have h: "hasOwnProperty data key = Returned False" by simp
      show ?thesis unfolding at using False by (simp add: deserializeField_missing[OF h])
    qed
    with e(1) show ?thesis by simp
  qed
  show ?thesis using e evs other first by blast
qed

theorem deserializeSchema_rejects_null_witness:
  "\<not> truthy JNull \<and> truthy (JObj [(''level'', JNum 3), (''reward'', JNull)])
   \<and> schema_at goalState 0 =
       [(''level'', descriptorOf TypePositiveInteger)] @
       (''reward'', descriptorOf (TypeEnum [''none'', ''belt''])) # []
   \<and> distinct (map fst (schema_at goalState 0))
   \<and> \<not> allowNull (descriptorOf (TypeEnum [''none'', ''belt'']))
   \<and> hasOwnProperty (JObj [(''level'', JNum 3), (''reward'', JNull)]) ''reward'' = Returned True
   \<and> getProperty (JObj [(''level'', JNum 3), (''reward'', JNull)]) ''reward'' = JNull
   \<and> hasOwnProperty (JObj [(''level'', JNum 3), (''reward'', JNull)]) ''level'' = Returned True
   \<and> getProperty (JObj [(''level'', JNum 3), (''reward'', JNull)]) ''level'' = JNum 3
   \<and> fst (deserializeSchema 0 0 (JObj [(''level'', JNum 3), (''reward'', JNull)]) JNull goalState) =
       Returned (JStr ''Non-nullable entry is null: reward of class Goal'')
   \<and> calls (snd (deserializeSchema 0 0 (JObj [(''level'', JNum 3), (''reward'', JNull)]) JNull goalState)) =
       [DescriptorCall ''level'' CallAllowNull, DescriptorCall ''level'' CallDeserializeWithVerify,
        DescriptorCall ''reward'' CallAllowNull]"
proof -
  let ?data = "JObj [(''level'', JNum 3), (''reward'', JNull)]"
  let ?d = "descriptorOf (TypeEnum [''none'', ''belt''])"
  let ?pre = "[(''level'', descriptorOf TypePositiveInteger)]"
  let ?R = "deserializeSchema 0 0 ?data JNull goalState"
  have h1: "\<not> truthy JNull" by simp
  have h2: "truthy ?data" by simp
  have h3: "schema_at goalState 0 = ?pre @ (''reward'', ?d) # []"
    by (simp add: schema_at_def goalState_def goalSchema_def)
  have h4: "distinct (map fst (schema_at goalState 0))"
    by (simp add: schema_at_def goalState_def goalSchema_def)
  have h5: "\<not> allowNull ?d" by (simp add: descriptorOf_def)
  have h6: "hasOwnProperty ?data ''reward'' = Returned True" by simp
  have h7: "getProperty ?data ''reward'' = JNull \<or> getProperty ?data ''reward'' = JUndefined"
    by simp
  have l1: "hasOwnProperty ?data ''level'' = Returned True" by simp
  have l2: "getProperty ?data ''level'' = JNum 3" by simp
  have pre: "\<forall>(k, dk) \<in> set ?pre.
                 hasOwnProperty ?data k = Returned True
               \<and> \<not> (\<not> allowNull dk \<and> (getProperty ?data k = JNull \<or> getProperty ?data k = JUndefined))
               \<and> (\<forall>ob root. \<not> isError (snd (deserializeWithVerify dk (getProperty ?data k) ob k root)))"
    by (simp add: descriptorOf_def)
  from deserializeSchema_rejects_null[OF h1 h2 h3 h4 h5 h6 h7, of 0] pre
  obtain e evs where r: "fst ?R = Returned e"
    and e: "e = JStr ((if True then ''Non-nullable entry is null: '' else ''Missing key in schema: '') @
               ''reward'' @ '' of class '' @ className (object_at (snd ?R) 0))"
    by blast
  have cn: "className (object_at (snd ?R) 0) = ''Goal''"
    by (simp add: deserializeSchema_def goalState_def goalSchema_def schema_at_def
        deserializeField_def descriptorOf_def object_at_def record_call_def set_object_def
        log_error_def objSet_def objGet_def Let_def)
  have res: "fst ?R = Returned (JStr ''Non-nullable entry is null: reward of class Goal'')"
    using r e cn by simp
  have c: "calls (snd ?R) =
       [DescriptorCall ''level'' CallAllowNull, DescriptorCall ''level'' CallDeserializeWithVerify,
        DescriptorCall ''reward'' CallAllowNull]"
    by (simp add: deserializeSchema_def goalState_def goalSchema_def schema_at_def
        deserializeField_def descriptorOf_def object_at_def record_call_def set_object_def
        log_error_def objSet_def objGet_def Let_def)
  show ?thesis using h1 h2 h3 h4 h5 h6 l1 l2 res c by simp
qed

text \<open>A walk over fields that the payload has, that pass the null test and whose
  descriptors assign their field and report no error: it goes through all of them, and
  the object then holds every one of these fields, next to what it held before.\<close>

lemma deserializeFields_assigns:
  assumes "obj < length (objects (mem s))"
    and "\<forall>(k, dk) \<in> set pre.
             hasOwnProperty data k = Returned True
           \<and> \<not> (\<not> allowNull dk \<and> (getProperty data k = JNull \<or> getProperty data k = JUndefined))
           \<and> (\<forall>ob root.
                  fst (deserializeWithVerify dk (getProperty data k) ob k root) = objSet ob k (assigned k)
                \<and> \<not> isError (snd (deserializeWithVerify dk (getProperty data k) ob k root)))"
  shows "\<exists>s1. deserializeFields obj pre data s = (Returned JUndefined, s1)
         \<and> obj < length (objects (mem s1))
         \<and> (\<forall>x. map_of (props (object_at s1 obj)) x =
                  (if x \<in> fst ` set pre then Some (assigned x) else map_of (props (object_at s obj)) x))
         \<and> calls s1 = calls s @
             concat (map (\<lambda>kd. [DescriptorCall (fst kd) CallAllowNull,
                                 DescriptorCall (fst kd) CallDeserializeWithVerify]) pre)"
  using assms
proof (induction pre arbitrary: s)
  case Nil
  show ?case using Nil.prems(1) by simp
next
  case (Cons p pre)
  obtain k dk where p: "p = (k, dk)" by (cases p)
  let ?r = "deserializeWithVerify dk (getProperty data k) (object_at s obj) k
      (objGet (object_at s obj) ''root'')"
  have h: "hasOwnProperty data k = Returned True"
    and n: "\<not> (\<not> allowNull dk \<and> (getProperty data k = JNull \<or> getProperty data k = JUndefined))"
    and ob: "fst ?r = objSet (object_at s obj) k (assigned k)"
    and ok: "\<not> isError (snd ?r)"
    using Cons.prems(2) p by auto
  have r: "?r = (objSet (object_at s obj) k (assigned k), snd ?r)"
    using ob by (metis prod.collapse)
  let ?s' = "set_object obj (objSet (object_at s obj) k (assigned k))
              (record_call (DescriptorCall k CallDeserializeWithVerify)
                 (record_call (DescriptorCall k CallAllowNull) s))"
  have step: "deserializeField obj k dk data s = (None, ?s')"
    by (rule deserializeField_passes[OF h n r ok])
  have len: "obj < length (objects (mem ?s'))"
    using Cons.prems(1) by (simp add: set_object_def record_call_def)
  have at: "object_at ?s' obj = objSet (object_at s obj) k (assigned k)"
    using Cons.prems(1) by (simp add: object_at_def set_object_def record_call_def)
  have cl: "calls ?s' = calls s @ [DescriptorCall k CallAllowNull,
      DescriptorCall k CallDeserializeWithVerify]"
    by (simp add: set_object_def record_call_def)
  have rest: "\<forall>(k, dk) \<in> set pre.
             hasOwnProperty data k = Returned True
           \<and> \<not> (\<not> allowNull dk \<and> (getProperty data k = JNull \<or> getProperty data k = JUndefined))
           \<and> (\<forall>ob root.
                  fst (deserializeWithVerify dk (getProperty data k) ob k root) = objSet ob k (assigned k)
                \<and> \<not> isError (snd (deserializeWithVerify dk (getProperty data k) ob k root)))"
    using Cons.prems(2) by simp
  from Cons.IH[OF len rest] obtain s1 where
    run: "deserializeFields obj pre data ?s' = (Returned JUndefined, s1)"
    and len1: "obj < length (objects (mem s1))"
    and pr: "\<forall>x. map_of (props (object_at s1 obj)) x =
                  (if x \<in> fst ` set pre then Some (assigned x) else map_of (props (object_at ?s' obj)) x)"
    and c1: "calls s1 = calls ?s' @
             concat (map (\<lambda>kd. [DescriptorCall (fst kd) CallAllowNull,
                                 DescriptorCall (fst kd) CallDeserializeWithVerify]) pre)"
    by blast
  have whole: "deserializeFields obj (p # pre) data s = (Returned JUndefined, s1)"
    using p step run by simp
  have pr': "map_of (props (object_at s1 obj)) x =
      (if x \<in> fst ` set (p # pre) then Some (assigned x) else map_of (props (object_at s obj)) x)"
    for x
    using pr p unfolding at by (simp add: objSet_def map_of_assignProperty)
  have c1': "calls s1 = calls s @
             concat (map (\<lambda>kd. [DescriptorCall (fst kd) CallAllowNull,
                                 DescriptorCall (fst kd) CallDeserializeWithVerify]) (p # pre))"
    using c1 cl p by simp
  show ?case using whole len1 pr' c1' by blast
qed

text \<open>
  Claim C7. Let \<^verbatim>\<open>deserializeSchema\<close> be called without an inherited error on a truthy
  payload, and let the schema declare the fields \<open>pre\<close>, then \<open>key\<close>, then \<open>post\<close>.
  Let the payload have every field of \<open>pre\<close> and the field \<open>key\<close>, none of them
  failing the null test; let the descriptor of every field \<open>k\<close> of \<open>pre\<close> assign
  \<open>assigned k\<close> into the object and report no error, and let the descriptor of \<open>key\<close>
  return the error \<open>e\<close>, touching no field of the object but its own. Then the call
  returns \<open>e\<close>; the walk has halted at \<open>key\<close>: the descriptor calls made are those
  for the fields of \<open>pre\<close> and for \<open>key\<close>, in declaration order, and none for a field
  of \<open>post\<close>; and nothing is rolled back: in the final state the object owns every field
  \<open>k\<close> of \<open>pre\<close> with the value \<open>assigned k\<close>, and its other properties, apart from
  \<open>key\<close>, are what they were before the call. For the fields \<open>level\<close> then
  \<open>reward\<close>, a failure on \<open>reward\<close> leaves \<open>level\<close> assigned.
\<close>

theorem deserializeSchema_halts_without_rollback:
  assumes "\<not> truthy baseclassErrorResult" and "truthy data"
    and "schema_at s schema = pre @ (key, d) # post"
    and "distinct (map fst (schema_at s schema))"
    and "obj < length (objects (mem s))"
    and "\<forall>(k, dk) \<in> set pre.
             hasOwnProperty data k = Returned True
           \<and> \<not> (\<not> allowNull dk \<and> (getProperty data k = JNull \<or> getProperty data k = JUndefined))
           \<and> (\<forall>ob root.
                  fst (deserializeWithVerify dk (getProperty data k) ob k root) = objSet ob k (assigned k)
                \<and> \<not> isError (snd (deserializeWithVerify dk (getProperty data k) ob k root)))"
    and "hasOwnProperty data key = Returned True"
    and "\<not> (\<not> allowNull d \<and> (getProperty data key = JNull \<or> getProperty data key = JUndefined))"
    and "\<forall>ob root. \<exists>ob'.
            deserializeWithVerify d (getProperty data key) ob key root = (ob', Some e)
          \<and> (\<forall>k. k \<noteq> key \<longrightarrow> map_of (props ob') k = map_of (props ob) k)"
    and "e \<noteq> []"
  shows "fst (deserializeSchema obj schema data baseclassErrorResult s) = Returned (JStr e)
       \<and> calls (snd (deserializeSchema obj schema data baseclassErrorResult s)) =
           calls s @
           concat (map (\<lambda>kd. [DescriptorCall (fst kd) CallAllowNull,
                               DescriptorCall (fst kd) CallDeserializeWithVerify]) (pre @ [(key, d)]))
       \<and> (\<forall>(k, dk) \<in> set pre.
             objHasOwnProperty (object_at (snd (deserializeSchema obj schema data baseclassErrorResult s)) obj) k
           \<and> objGet (object_at (snd (deserializeSchema obj schema data baseclassErrorResult s)) obj) k =
               assigned k)
       \<and> (\<forall>k. k \<notin> fst ` set pre \<and> k \<noteq> key \<longrightarrow>
             map_of (props (object_at (snd (deserializeSchema obj schema data baseclassErrorResult s)) obj)) k =
             map_of (props (object_at s obj)) k)"
proof -
  let ?R = "deserializeSchema obj schema data baseclassErrorResult s"
  have fresh: "key \<notin> fst ` set pre" using assms(3,4) by auto
  from deserializeFields_assigns[OF assms(5,6)] obtain s1 where
    run: "deserializeFields obj pre data s = (Returned JUndefined, s1)"
    and len1: "obj < length (objects (mem s1))"
    and pr: "\<forall>x. map_of (props (object_at s1 obj)) x =
                  (if x \<in> fst ` set pre then Some (assigned x) else map_of (props (object_at s obj)) x)"
    and c1: "calls s1 = calls s @
             concat (map (\<lambda>kd. [DescriptorCall (fst kd) CallAllowNull,
                                 DescriptorCall (fst kd) CallDeserializeWithVerify]) pre)"
    by blast
  from assms(9) obtain ob' where
    r: "deserializeWithVerify d (getProperty data key) (object_at s1 obj) key
          (objGet (object_at s1 obj) ''root'') = (ob', Some e)"
    and frame: "\<forall>k. k \<noteq> key \<longrightarrow> map_of (props ob') k = map_of (props (object_at s1 obj)) k"
    by blast
  let ?s2 = "set_object obj ob'
              (record_call (DescriptorCall key CallDeserializeWithVerify)
                 (record_call (DescriptorCall key CallAllowNull) s1))"
  from deserializeField_fails[OF assms(7,8) r assms(10)] obtain parts where
    step: "deserializeField obj key d data s1 =
      (Some (Returned (JStr e)), log_error ''serialization'' parts ?s2)"
    by blast
  have "?R = deserializeFields obj (pre @ (key, d) # post) data s"
    using assms(1,2,3) by (simp add: deserializeSchema_def)
  also have "\<dots> = deserializeFields obj ((key, d) # post) data s1"
    by (rule deserializeFields_append[OF run assms(7)])
  also have "\<dots> = (Returned (JStr e), log_error ''serialization'' parts ?s2)"
    using step by simp
  finally have whole: "?R = (Returned (JStr e), log_error ''serialization'' parts ?s2)" .
  have at: "object_at (snd ?R) obj = ob'"
    unfolding whole using len1 by (simp add: object_at_def set_object_def record_call_def log_error_def)
  have cl: "calls (snd ?R) = calls s @
           concat (map (\<lambda>kd. [DescriptorCall (fst kd) CallAllowNull,
                               DescriptorCall (fst kd) CallDeserializeWithVerify]) (pre @ [(key, d)]))"
    unfolding whole using c1 by (simp add: set_object_def record_call_def log_error_def)
  have kept: "objHasOwnProperty (object_at (snd ?R) obj) k
           \<and> objGet (object_at (snd ?R) obj) k = assigned k"
    if "(k, dk) \<in> set pre" for k dk
  proof -
    from that have kin: "k \<in> fst ` set pre" by force
    with fresh have "k \<noteq> key" by auto
    with frame pr kin have m: "map_of (props ob') k = Some (assigned k)" by simp
    then have "k \<in> fst ` set (props ob')" by (metis map_of_eq_None_iff option.distinct(1))
    with m show ?thesis unfolding at by (simp add: objHasOwnProperty_def objGet_def)
  qed
  have others: "map_of (props (object_at (snd ?R) obj)) k = map_of (props (object_at s obj)) k"
    if "k \<notin> fst ` set pre \<and> k \<noteq> key" for k
    unfolding at using that frame pr by simp
  show ?thesis using whole cl kept others by auto
qed

theorem deserializeSchema_halts_without_rollback_witness:
  "\<not> truthy JNull \<and> truthy (JObj [(''level'', JNum 3), (''reward'', JStr ''nuclear'')])
   \<and> schema_at goalState 0 =
       [(''level'', descriptorOf TypePositiveInteger)] @
       (''reward'', descriptorOf (TypeEnum [''none'', ''belt''])) # []
   \<and> distinct (map fst (schema_at goalState 0))
   \<and> 0 < length (objects (mem goalState))
   \<and> hasOwnProperty (JObj [(''level'', JNum 3), (''reward'', JStr ''nuclear'')]) ''level'' = Returned True
   \<and> getProperty (JObj [(''level'', JNum 3), (''reward'', JStr ''nuclear'')]) ''level'' = JNum 3
   \<and> hasOwnProperty (JObj [(''level'', JNum 3), (''reward'', JStr ''nuclear'')]) ''reward'' = Returned True
   \<and> getProperty (JObj [(''level'', JNum 3), (''reward'', JStr ''nuclear'')]) ''reward'' = JStr ''nuclear''
   \<and> fst (deserializeSchema 0 0 (JObj [(''level'', JNum 3), (''reward'', JStr ''nuclear'')]) JNull
            goalState) = Returned (JStr ''Unknown enum value: nuclear'')
   \<and> calls (snd (deserializeSchema 0 0 (JObj [(''level'', JNum 3), (''reward'', JStr ''nuclear'')]) JNull
            goalState)) =
       [DescriptorCall ''level'' CallAllowNull, DescriptorCall ''level'' CallDeserializeWithVerify,
        DescriptorCall ''reward'' CallAllowNull, DescriptorCall ''reward'' CallDeserializeWithVerify]
   \<and> props (object_at goalState 0) = []
   \<and> objHasOwnProperty (object_at (snd (deserializeSchema 0 0
              (JObj [(''level'', JNum 3), (''reward'', JStr ''nuclear'')]) JNull goalState)) 0) ''level''
   \<and> objGet (object_at (snd (deserializeSchema 0 0
              (JObj [(''level'', JNum 3), (''reward'', JStr ''nuclear'')]) JNull goalState)) 0) ''level'' =
       JNum 3
   \<and> props (object_at (snd (deserializeSchema 0 0
              (JObj [(''level'', JNum 3), (''reward'', JStr ''nuclear'')]) JNull goalState)) 0) =
       [(''level'', JNum 3)]"
proof -
  let ?data = "JObj [(''level'', JNum 3), (''reward'', JStr ''nuclear'')]"
  let ?pre = "[(''level'', descriptorOf TypePositiveInteger)]"
  let ?d = "descriptorOf (TypeEnum [''none'', ''belt''])"
  let ?R = "deserializeSchema 0 0 ?data JNull goalState"
  note defs = deserializeSchema_def goalState_def goalSchema_def schema_at_def
    deserializeField_def descriptorOf_def object_at_def record_call_def set_object_def
    log_error_def objSet_def objGet_def Let_def assignProperty_def indexOf_def arrayIndex_def
    isDigit_def
  have h1: "\<not> truthy JNull" by simp
  have h2: "truthy ?data" by simp
  have h3: "schema_at goalState 0 = ?pre @ (''reward'', ?d) # []"
    by (simp add: schema_at_def goalState_def goalSchema_def)
  have h4: "distinct (map fst (schema_at goalState 0))"
    by (simp add: schema_at_def goalState_def goalSchema_def)
  have h5: "0 < length (objects (mem goalState))" by (simp add: goalState_def)
  have h6: "\<forall>(k, dk) \<in> set ?pre.
             hasOwnProperty ?data k = Returned True
           \<and> \<not> (\<not> allowNull dk \<and> (getProperty ?data k = JNull \<or> getProperty ?data k = JUndefined))
           \<and> (\<forall>ob root.
                  fst (deserializeWithVerify dk (getProperty ?data k) ob k root) =
                    objSet ob k ((\<lambda>k. JNum 3) k)
                \<and> \<not> isError (snd (deserializeWithVerify dk (getProperty ?data k) ob k root)))"
    by (simp add: descriptorOf_def)
  have h7: "hasOwnProperty ?data ''reward'' = Returned True" by simp
  have h8: "\<not> (\<not> allowNull ?d \<and>
      (getProperty ?data ''reward'' = JNull \<or> getProperty ?data ''reward'' = JUndefined))"
    by simp
  have h9: "\<forall>ob root. \<exists>ob'.
            deserializeWithVerify ?d (getProperty ?data ''reward'') ob ''reward'' root =
              (ob', Some ''Unknown enum value: nuclear'')
          \<and> (\<forall>k. k \<noteq> ''reward'' \<longrightarrow> map_of (props ob') k = map_of (props ob) k)"
    by (simp add: descriptorOf_def)
  have h10: "''Unknown enum value: nuclear'' \<noteq> []" by simp
  have l1: "hasOwnProperty ?data ''level'' = Returned True" by simp
  have l2: "getProperty ?data ''level'' = JNum 3" by simp
  have l3: "getProperty ?data ''reward'' = JStr ''nuclear''" by simp
  from deserializeSchema_halts_without_rollback[OF h1 h2 h3 h4 h5 h6 h7 h8 h9 h10]
  have res: "fst ?R = Returned (JStr ''Unknown enum value: nuclear'')"
    and cl: "calls (snd ?R) = calls goalState @
           concat (map (\<lambda>kd. [DescriptorCall (fst kd) CallAllowNull,
                               DescriptorCall (fst kd) CallDeserializeWithVerify])
                    (?pre @ [(''reward'', ?d)]))"
    and kept: "objHasOwnProperty (object_at (snd ?R) 0) ''level''"
      "objGet (object_at (snd ?R) 0) ''level'' = JNum 3"
    by simp_all
  have cl': "calls (snd ?R) =
       [DescriptorCall ''level'' CallAllowNull, DescriptorCall ''level'' CallDeserializeWithVerify,
        DescriptorCall ''reward'' CallAllowNull, DescriptorCall ''reward'' CallDeserializeWithVerify]"
    using cl by (simp add: goalState_def)
  have before: "props (object_at goalState 0) = []" by (simp add: defs)
  have after: "props (object_at (snd ?R) 0) = [(''level'', JNum 3)]" by (simp add: defs)
  show ?thesis using h1 h2 h3 h4 h5 h7 l1 l2 l3 res cl' kept before after by simp
qed

section \<open>Cached schemas\<close>

lemma cacheLookup_assignProperty:
  "cacheLookup (assignProperty k v cache) k' =
     (if k' = k then Some (SchemaObject v) else cacheLookup cache k')"
  by (simp add: cacheLookup_def map_of_assignProperty)

lemma claimLookup_assignProperty:
  "claimLookup (assignProperty k v cache) k' =
     (if k' = k then Some (ClassObject v) else claimLookup cache k')"
  by (simp add: claimLookup_def map_of_assignProperty)

lemma claimLookup_own:
  "claimLookup cache k = Some (ClassObject c) \<Longrightarrow> map_of cache k = Some c"
  by (auto simp: claimLookup_def split: option.splits if_splits)

lemma cachesKept_refl: "cachesKept s s"
  by (simp add: cachesKept_def)

lemma cachesKept_trans: "cachesKept s s1 \<Longrightarrow> cachesKept s1 s2 \<Longrightarrow> cachesKept s s2"
  by (simp add: cachesKept_def)

text \<open>The development block throws and leaves the state as it was, or returns with the
  class entered under its identifier.\<close>

lemma claimClassname_cases:
  "(\<exists>f. claimClassname cls s = (Thrown f, s)) \<or>
   (claimClassname cls s =
      (Returned (),
       if G_IS_DEV s
       then s\<lparr>mem := (mem s)\<lparr>classnamesCache :=
                 assignProperty (getId cls) (clsIdentity cls) (classnamesCache (mem s))\<rparr>\<rparr>
       else s)
    \<and> (G_IS_DEV s \<longrightarrow>
         claimLookup (classnamesCache (mem s)) (getId cls) = Some (ClassObject (clsIdentity cls)) \<or>
         claimLookup (classnamesCache (mem s)) (getId cls) = None))"
  by (auto simp: claimClassname_def js_assert_def)

lemma claimClassname_kept: "cachesKept s (snd (claimClassname cls s))"
  using claimClassname_cases[of cls s]
  by (cases "G_IS_DEV s") (auto simp: cachesKept_def claimLookup_assignProperty)

lemma claimClassname_cache:
  "globalSchemaCache (mem (snd (claimClassname cls s))) = globalSchemaCache (mem s)"
  using claimClassname_cases[of cls s] by auto

lemma claimClassname_claimed:
  assumes "claimClassname cls s = (Returned u, s1)" and "G_IS_DEV s"
  shows "claimLookup (classnamesCache (mem s1)) (getId cls) = Some (ClassObject (clsIdentity cls))"
  using claimClassname_cases[of cls s] assms by (auto simp: claimLookup_assignProperty)

text \<open>Once the class is entered under its identifier the development block changes
  nothing.\<close>

lemma claimClassname_stable:
  assumes "G_IS_DEV s \<longrightarrow>
           claimLookup (classnamesCache (mem s)) (getId cls) = Some (ClassObject (clsIdentity cls))"
  shows "claimClassname cls s = (Returned (), s)"
proof (cases "G_IS_DEV s")
  case False
  then show ?thesis by (simp add: claimClassname_def)
next
  case True
  with assms have "map_of (classnamesCache (mem s)) (getId cls) = Some (clsIdentity cls)"
    by (simp add: claimLookup_own)
  then have "assignProperty (getId cls) (clsIdentity cls) (classnamesCache (mem s)) =
      classnamesCache (mem s)"
    by (rule assignProperty_same)
  with True assms show ?thesis by (simp add: claimClassname_def js_assert_def)
qed

lemma getCachedSchema_hit:
  assumes "claimClassname cls s = (Returned (), s)"
    and "cacheLookup (globalSchemaCache (mem s)) (getId cls) = Some entry"
  shows "getCachedSchema cls s = (Returned entry, s)"
  using assms by (cases cls) simp

lemma getCachedSchema_miss:
  assumes "claimClassname cls s = (Returned (), sc)"
    and "cacheLookup (globalSchemaCache (mem sc)) (getId cls) = None"
  shows "getCachedSchema cls s =
     (case getSchema cls sc of
        (Thrown f, sg) \<Rightarrow> (Thrown f, sg)
      | (Returned sch, sg) \<Rightarrow>
          (Returned (SchemaObject sch),
           sg\<lparr>mem := (mem sg)\<lparr>globalSchemaCache :=
                  assignProperty (getId cls) sch (globalSchemaCache (mem sg))\<rparr>\<rparr>))"
  using assms by (cases cls) (auto simp del: getSchema.simps split: prod.splits outcome.splits)

text \<open>No call of \<^verbatim>\<open>getCachedSchema\<close>, and no \<^verbatim>\<open>getSchema\<close>, takes away what a
  lookup in the caches finds: an entry is written only where the lookup found nothing (or,
  in \<^verbatim>\<open>classnamesCache\<close>, the class that is written).\<close>

lemma getCachedSchema_kept:
  "cachesKept s (snd (getCachedSchema cls s))"
  "cachesKept s (snd (getSchema cls s))"
  "cachesKept s (snd (getCachedSchemas cs s))"
proof (induction cls s and cls s and cs s rule: getCachedSchema_getSchema_getCachedSchemas.induct)
  case (1 this name ident supers body s)
  let ?cls = "JSClass this name ident supers body"
  from claimClassname_cases[of ?cls s] show ?case
  proof
    assume "\<exists>f. claimClassname ?cls s = (Thrown f, s)"
    then show ?thesis by (auto simp: cachesKept_refl)
  next
    assume ret: "claimClassname ?cls s =
      (Returned (),
       if G_IS_DEV s
       then s\<lparr>mem := (mem s)\<lparr>classnamesCache :=
                 assignProperty (getId ?cls) (clsIdentity ?cls) (classnamesCache (mem s))\<rparr>\<rparr>
       else s)
    \<and> (G_IS_DEV s \<longrightarrow>
         claimLookup (classnamesCache (mem s)) (getId ?cls) = Some (ClassObject (clsIdentity ?cls)) \<or>
         claimLookup (classnamesCache (mem s)) (getId ?cls) = None)"
    define sc where "sc = snd (claimClassname ?cls s)"
    have cl: "claimClassname ?cls s = (Returned (), sc)" using ret by (simp add: sc_def)
    have k1: "cachesKept s sc" unfolding sc_def by (rule claimClassname_kept)
    show ?thesis
    proof (cases "cacheLookup (globalSchemaCache (mem sc)) ident")
      case (Some entry)
      then have "getCachedSchema ?cls s = (Returned entry, sc)" using cl by simp
      then show ?thesis using k1 by simp
    next
      case None
      have k2: "cachesKept sc (snd (getSchema ?cls sc))"
        using "1.IH"[OF cl[symmetric] refl None] .
      obtain out sg where g: "getSchema ?cls sc = (out, sg)" by (cases "getSchema ?cls sc")
      show ?thesis
      proof (cases out)
        case (Thrown f)
        then have "getCachedSchema ?cls s = (Thrown f, sg)"
          using cl None g by simp
        then show ?thesis using k1 k2 g by (auto intro: cachesKept_trans)
      next
        case (Returned sch)
        let ?final = "sg\<lparr>mem := (mem sg)\<lparr>globalSchemaCache :=
                  assignProperty ident sch (globalSchemaCache (mem sg))\<rparr>\<rparr>"
        have run: "getCachedSchema ?cls s = (Returned (SchemaObject sch), ?final)"
          using cl None g Returned by simp
        have k3: "cachesKept s sg" using k1 k2 g by (auto intro: cachesKept_trans)
        have none_s: "cacheLookup (globalSchemaCache (mem s)) ident = None"
          using None claimClassname_cache[of ?cls s] by (simp add: sc_def)
        have "cachesKept s ?final"
          using k3 none_s unfolding cachesKept_def
          by (auto simp: cacheLookup_assignProperty)
        then show ?thesis using run by simp
      qed
    qed
  qed
next
  case (2 this name ident supers body s)
  let ?s0 = "record_call (GetSchemaCall name) s"
  have k0: "cachesKept s ?s0" by (simp add: cachesKept_def record_call_def)
  have k1: "cachesKept ?s0 (snd (getCachedSchemas supers ?s0))" using "2.IH" .
  obtain out s1 where g: "getCachedSchemas supers ?s0 = (out, s1)"
    by (cases "getCachedSchemas supers ?s0")
  show ?case
  proof (cases out)
    case (Thrown f)
    then show ?thesis using g k0 k1 by (auto intro: cachesKept_trans)
  next
    case (Returned parents)
    obtain o2 schs objs where b: "body parents (schemas (mem s1), objects (mem s1)) = (o2, schs, objs)"
      by (cases "body parents (schemas (mem s1), objects (mem s1))")
    have "cachesKept s1 (s1\<lparr>mem := (mem s1)\<lparr>schemas := schs, objects := objs\<rparr>\<rparr>)"
      by (simp add: cachesKept_def)
    moreover have "cachesKept s s1" using g k0 k1 by (auto intro: cachesKept_trans)
    ultimately show ?thesis using g Returned b by (auto intro: cachesKept_trans)
  qed
next
  case (3 s)
  show ?case by (simp add: cachesKept_refl)
next
  case (4 cls rest s)
  have k1: "cachesKept s (snd (getCachedSchema cls s))" using "4.IH"(1) .
  obtain out s1 where g: "getCachedSchema cls s = (out, s1)" by (cases "getCachedSchema cls s")
  show ?case
  proof (cases out)
    case (Thrown f)
    then show ?thesis using g k1 by simp
  next
    case (Returned parent)
    have k2: "cachesKept s1 (snd (getCachedSchemas rest s1))"
      using "4.IH"(2)[OF g[symmetric] Returned] .
    obtain o2 s2 where g2: "getCachedSchemas rest s1 = (o2, s2)"
      by (cases "getCachedSchemas rest s1")
    have "cachesKept s s2" using k1 k2 g g2 by (auto intro: cachesKept_trans)
    then show ?thesis using g Returned g2 by (cases o2) auto
  qed
qed

lemma claimClassname_returns:
  assumes "G_IS_DEV s \<longrightarrow>
           claimLookup (classnamesCache (mem s)) (getId cls) = Some (ClassObject (clsIdentity cls)) \<or>
           claimLookup (classnamesCache (mem s)) (getId cls) = None"
  shows "fst (claimClassname cls s) = Returned ()"
  using assms by (auto simp: claimClassname_def js_assert_def)

text \<open>A call in any later state that has kept what the caches held returns the cached
  entry and changes nothing.\<close>

lemma getCachedSchema_again:
  assumes "cacheLookup (globalSchemaCache (mem s)) (getId cls) = Some entry"
    and "G_IS_DEV s \<longrightarrow>
         claimLookup (classnamesCache (mem s)) (getId cls) = Some (ClassObject (clsIdentity cls))"
    and "cachesKept s s2"
  shows "getCachedSchema cls s2 = (Returned entry, s2)"
proof -
  have "G_IS_DEV s2 \<longrightarrow>
      claimLookup (classnamesCache (mem s2)) (getId cls) = Some (ClassObject (clsIdentity cls))"
    using assms(2,3) by (simp add: cachesKept_def)
  then have "claimClassname cls s2 = (Returned (), s2)" by (rule claimClassname_stable)
  moreover have "cacheLookup (globalSchemaCache (mem s2)) (getId cls) = Some entry"
    using assms(1,3) by (simp add: cachesKept_def)
  ultimately show ?thesis by (rule getCachedSchema_hit)
qed

text \<open>An identifier that names a member of \<^verbatim>\<open>Object.prototype\<close> is never a miss:
  \<^verbatim>\<open>globalSchemaCache["toString"]\<close> is the inherited function, which a production
  build returns without ever calling \<^verbatim>\<open>getSchema\<close>; a development build rejects the
  class at its first call, \<^verbatim>\<open>classnamesCache["toString"]\<close> being neither the class nor
  \<^verbatim>\<open>undefined\<close>.\<close>

lemma getCachedSchema_inherited_member:
  "getCachedSchema Formatter releaseState = (Returned (InheritedMember ''toString''), releaseState)
   \<and> fst (getCachedSchema Formatter goalState) =
       Thrown (AssertionError ''Class name taken twice: toString (from Formatter)'')"
  by (simp add: Formatter_def releaseState_def goalState_def claimClassname_def js_assert_def
      cacheLookup_def claimLookup_def objectPrototypeNames_def)

text \<open>
  Claim C2. Let a class be called for the first time under its identifier: the lookup
  \<^verbatim>\<open>globalSchemaCache[id]\<close> finds nothing, and in a development build no other class
  has taken the identifier. Let its \<^verbatim>\<open>getSchema\<close>, run in the state the development
  block leaves, return the schema object \<open>sch\<close> in the state \<open>sg\<close>. Then
  \<^verbatim>\<open>getCachedSchema\<close> returns \<open>sch\<close>, and the state \<open>s1\<close> it leaves is \<open>sg\<close> with
  \<open>sch\<close> stored under the identifier: \<^verbatim>\<open>getSchema\<close> has run once, and nothing else
  has happened. A second call returns the same schema object \<open>sch\<close> and leaves \<open>s1\<close>
  exactly as it is: no \<^verbatim>\<open>getSchema\<close> runs, no schema object and no descriptor is
  touched. The same holds for every later call: after any sequence of calls of
  \<^verbatim>\<open>getCachedSchema\<close>, for this class or any other classes, whether they return or
  throw, a call for the class returns \<open>sch\<close> and changes nothing.
\<close>

theorem getCachedSchema_once:
  assumes "cacheLookup (globalSchemaCache (mem s)) (getId cls) = None"
    and "G_IS_DEV s \<longrightarrow>
         claimLookup (classnamesCache (mem s)) (getId cls) = Some (ClassObject (clsIdentity cls)) \<or>
         claimLookup (classnamesCache (mem s)) (getId cls) = None"
    and "getSchema cls (snd (claimClassname cls s)) = (Returned sch, sg)"
    and "s1 = sg\<lparr>mem := (mem sg)\<lparr>globalSchemaCache :=
                   assignProperty (getId cls) sch (globalSchemaCache (mem sg))\<rparr>\<rparr>"
  shows "getCachedSchema cls s = (Returned (SchemaObject sch), s1)
       \<and> getCachedSchema cls s1 = (Returned (SchemaObject sch), s1)
       \<and> (\<forall>cs out s2. getCachedSchemas cs s1 = (out, s2) \<longrightarrow>
             getCachedSchema cls s2 = (Returned (SchemaObject sch), s2))"
proof -
  define sc where "sc = snd (claimClassname cls s)"
  have cl: "claimClassname cls s = (Returned (), sc)"
    using claimClassname_returns[OF assms(2)] unfolding sc_def by (metis prod.collapse)
  have miss: "cacheLookup (globalSchemaCache (mem sc)) (getId cls) = None"
    unfolding sc_def claimClassname_cache using assms(1) .
  have g: "getSchema cls sc = (Returned sch, sg)" using assms(3) unfolding sc_def .
  have first: "getCachedSchema cls s = (Returned (SchemaObject sch), s1)"
    unfolding getCachedSchema_miss[OF cl miss] g assms(4) by simp
  have "cachesKept s sc" unfolding sc_def by (rule claimClassname_kept)
  moreover have "cachesKept sc sg" using getCachedSchema_kept(2)[of sc cls] g by simp
  ultimately have dev: "G_IS_DEV sg = G_IS_DEV s" by (simp add: cachesKept_def)
  have claimed: "G_IS_DEV s1 \<longrightarrow>
      claimLookup (classnamesCache (mem s1)) (getId cls) = Some (ClassObject (clsIdentity cls))"
  proof
    assume "G_IS_DEV s1"
    then have d: "G_IS_DEV s" using dev assms(4) by simp
    from claimClassname_claimed[OF cl d] \<open>cachesKept sc sg\<close>
    have "claimLookup (classnamesCache (mem sg)) (getId cls) = Some (ClassObject (clsIdentity cls))"
      by (simp add: cachesKept_def)
    then show "claimLookup (classnamesCache (mem s1)) (getId cls) = Some (ClassObject (clsIdentity cls))"
      using assms(4) by simp
  qed
  have stored: "cacheLookup (globalSchemaCache (mem s1)) (getId cls) = Some (SchemaObject sch)"
    using assms(4) by (simp add: cacheLookup_assignProperty)
  have second: "getCachedSchema cls s1 = (Returned (SchemaObject sch), s1)"
    by (rule getCachedSchema_again[OF stored claimed cachesKept_refl])
  have later: "getCachedSchema cls s2 = (Returned (SchemaObject sch), s2)"
    if "getCachedSchemas cs s1 = (out, s2)" for cs out s2
  proof -
    have "cachesKept s1 s2" using getCachedSchema_kept(3)[of s1 cs] that by simp
    then show ?thesis by (rule getCachedSchema_again[OF stored claimed])
  qed
  show ?thesis using first second later by blast
qed

theorem getCachedSchema_once_witness:
  "cacheLookup (globalSchemaCache (mem goalState)) (getId HubGoals) = None
   \<and> claimLookup (classnamesCache (mem goalState)) (getId HubGoals) = None
   \<and> fst (getSchema HubGoals (snd (claimClassname HubGoals goalState))) = Returned 2
   \<and> fst (getCachedSchema HubGoals goalState) = Returned (SchemaObject 2)
   \<and> getCachedSchema HubGoals (snd (getCachedSchema HubGoals goalState)) =
       (Returned (SchemaObject 2), snd (getCachedSchema HubGoals goalState))
   \<and> calls (snd (getCachedSchema HubGoals (snd (getCachedSchema HubGoals goalState)))) =
       [GetSchemaCall ''HubGoals'']
   \<and> schemas (mem (snd (getCachedSchema HubGoals goalState))) = [goalSchema, [], []]
   \<and> globalSchemaCache (mem (snd (getCachedSchema HubGoals goalState))) = [(''HubGoals'', 2)]"
proof -
  note defs = HubGoals_def goalState_def claimClassname_def js_assert_def cacheLookup_def
    claimLookup_def objectPrototypeNames_def BasicSerializableObject_getSchema_def
    record_call_def assignProperty_def indexOf_def arrayIndex_def isDigit_def
  let ?sc = "snd (claimClassname HubGoals goalState)"
  let ?sg = "snd (getSchema HubGoals ?sc)"
  let ?s1 = "?sg\<lparr>mem := (mem ?sg)\<lparr>globalSchemaCache :=
                   assignProperty (getId HubGoals) 2 (globalSchemaCache (mem ?sg))\<rparr>\<rparr>"
  have h1: "cacheLookup (globalSchemaCache (mem goalState)) (getId HubGoals) = None"
    by (simp add: defs)
  have n: "claimLookup (classnamesCache (mem goalState)) (getId HubGoals) = None"
    by (simp add: defs)
  then have h2: "G_IS_DEV goalState \<longrightarrow>
         claimLookup (classnamesCache (mem goalState)) (getId HubGoals) =
           Some (ClassObject (clsIdentity HubGoals)) \<or>
         claimLookup (classnamesCache (mem goalState)) (getId HubGoals) = None"
    by simp
  have f: "fst (getSchema HubGoals ?sc) = Returned 2" by (simp add: defs)
  then have h3: "getSchema HubGoals ?sc = (Returned 2, ?sg)" by (metis prod.collapse)
  from getCachedSchema_once[OF h1 h2 h3 refl]
  have first: "getCachedSchema HubGoals goalState = (Returned (SchemaObject 2), ?s1)"
    and second: "getCachedSchema HubGoals ?s1 = (Returned (SchemaObject 2), ?s1)"
    by simp_all
  have c: "calls ?s1 = [GetSchemaCall ''HubGoals'']" by (simp add: defs)
  have m: "schemas (mem ?s1) = [goalSchema, [], []]" by (simp add: defs)
  have g: "globalSchemaCache (mem ?s1) = [(''HubGoals'', 2)]" by (simp add: defs)
  show ?thesis unfolding first snd_conv fst_conv second using h1 n f c m g by simp
qed

section \<open>Present payloads\<close>

text \<open>On a payload on which \<^verbatim>\<open>hasOwnProperty\<close> can be called neither walk throws: every
  data error comes back as a returned description. Every truthy payload is such a
  payload, unless it is an object that holds a property named \<^verbatim>\<open>hasOwnProperty\<close> of its
  own.\<close>

lemma hasOwnProperty_present:
  assumes "truthy data"
  shows "(\<exists>b. hasOwnProperty data key = Returned b) \<or>
         (\<exists>kvs. data = JObj kvs \<and> ''hasOwnProperty'' \<in> fst ` set kvs)"
  using assms by (cases data) auto

lemma verifyField_returns:
  assumes "hasOwnProperty data key = Returned b"
  shows "case fst (verifyField key d data s) of None \<Rightarrow> True | Some out \<Rightarrow> \<exists>e. out = Returned e"
  using assms by (cases b) (auto simp: verifyField_def Let_def)

lemma verifyFields_returns:
  assumes "hasOwnProperty data key' = Returned b'"
  shows "\<exists>r. fst (verifyFields sch data s) = Returned r"
proof (induction sch arbitrary: s)
  case Nil
  show ?case by simp
next
  case (Cons p rest)
  obtain key d where p: "p = (key, d)" by (cases p)
  obtain b where hb: "hasOwnProperty data key = Returned b"
    using hasOwnProperty_returns[OF assms] by blast
  obtain out s1 where step: "verifyField key d data s = (out, s1)"
    by (cases "verifyField key d data s")
  show ?case
  proof (cases out)
    case None
    with step p Cons.IH[of s1] show ?thesis by simp
  next
    case (Some o')
    with verifyField_returns[OF hb, of d s] step p show ?thesis by auto
  qed
qed

lemma verifySchema_present_payload_returns:
  "hasOwnProperty data key' = Returned b' \<Longrightarrow> \<exists>r. fst (verifySchema schema data s) = Returned r"
  unfolding verifySchema_def by (rule verifyFields_returns)

lemma deserializeFields_returns:
  assumes "hasOwnProperty data key' = Returned b'"
  shows "\<exists>r. fst (deserializeFields obj sch data s) = Returned r"
proof (induction sch arbitrary: s)
  case Nil
  show ?case by simp
next
  case (Cons p rest)
  obtain key d where p: "p = (key, d)" by (cases p)
  obtain b where hb: "hasOwnProperty data key = Returned b"
    using hasOwnProperty_returns[OF assms] by blast
  obtain out s1 where step: "deserializeField obj key d data s = (out, s1)"
    by (cases "deserializeField obj key d data s")
  show ?case
  proof (cases out)
    case None
    with step p Cons.IH[of s1] show ?thesis by simp
  next
    case (Some o')
    with deserializeField_step[OF hb, of obj d s] step p show ?thesis by auto
  qed
qed

lemma deserializeSchema_present_payload_returns:
  "hasOwnProperty data key' = Returned b' \<Longrightarrow>
   \<exists>r. fst (deserializeSchema obj schema data baseclassErrorResult s) = Returned r"
  using deserializeFields_returns[of data key' b' obj "schema_at s schema" s]
  by (auto simp: deserializeSchema_def)

end
